theory Spec2Isabelle
  imports Complex_Main "HOL-Library.AList" "HOL-Library.Multiset" "HOL-Library.Product_Lexorder"
begin

section \<open>Python values and the outside world\<close>

text \<open>
  The two source files, \<^verbatim>\<open>shadow_bot_creator.py\<close> (class ShadowBotManager) and
  \<^verbatim>\<open>task_manager.py\<close> (class TaskManager), are embedded as functions on records of
  the objects' fields. Python's unbounded integers are \<^typ>\<open>int\<close>. Python's floats
  are idealised as exact rationals (\<^typ>\<open>rat\<close>): the literals 0.8, 0.85, 0.9 and 1.2
  are 4/5, 17/20, 9/10 and 6/5, and true division is exact division.

  Everything outside the process (the Docker daemon, SQLite, the webhook endpoint,
  psutil, the clock, the random generator, standard output) is an explicit input or
  output of each call: what the world answers is read from a record \<open>world\<close>, and
  every call that reaches the world is appended, in program order, to the field
  \<open>trace\<close> of the object's state. A call into Docker or SQLite that the world makes
  fail raises to the caller, since the source installs no handler around those calls.
\<close>

subsection \<open>Decimal rendering (str and f-strings of integers)\<close>

function str_nat :: "nat \<Rightarrow> string" where
  "str_nat n =
     (if n < 10 then [''0123456789'' ! n]
      else str_nat (n div 10) @ [''0123456789'' ! (n mod 10)])"
  by pat_completeness auto
termination
  by (relation "measure id") auto

declare str_nat.simps [simp del]

definition str_int :: "int \<Rightarrow> string" where
  "str_int i = (if i < 0 then CHR ''-'' # str_nat (nat (- i)) else str_nat (nat i))"

text \<open>Python's \<^verbatim>\<open>int(x)\<close> on a float truncates towards zero.\<close>

definition py_int :: "rat \<Rightarrow> int" where
  "py_int r = (if 0 \<le> r then \<lfloor>r\<rfloor> else \<lceil>r\<rceil>)"

subsection \<open>Containers, messages, effects, errors\<close>

text \<open>
  A container handle of the Docker SDK, as far as the source reads it: its name and
  the tag list of its image (\<^verbatim>\<open>container.image.tags\<close>).
\<close>

record container =
  c_name :: string
  c_image_tags :: "string list"

text \<open>
  The four alert texts of \<^verbatim>\<open>_monitor_container\<close>. The first three are f-strings
  over the bot name (growing RAM, growing CPU, restarting the container); the fourth is
  the fixed text announcing a new container.
\<close>

datatype message =
    Msg_grow_ram string
  | Msg_grow_cpu string
  | Msg_restart string
  | Msg_scale_out

text \<open>The lines the two classes print to standard output.\<close>

datatype line =
    Line_max_reached
  | Line_started string
  | Line_stopped string
  | Line_not_exists string
  | Line_high_load
  | Line_low_load string
  | Line_adjusted nat
  | Line_webhook_error string

text \<open>
  The calls that reach the world. \<open>Containers_run image name mem_limit cpu_quota\<close> is
  \<^verbatim>\<open>docker_client.containers.run(image, name=.., detach=True, mem_limit=..,
  cpu_quota=.., restart_policy={"Name": "always"})\<close>; \<open>Container_remove\<close> is
  \<^verbatim>\<open>remove(force=True)\<close>; \<open>Db_insert timestamp event\<close> is the INSERT of
  \<^verbatim>\<open>_log_event\<close>; \<open>Requests_post url message\<close> is
  \<^verbatim>\<open>requests.post(url, json={"text": message})\<close>.
\<close>

datatype effect =
    Containers_run string string string int
  | Container_remove string
  | Container_stats string
  | Container_update_mem string string
  | Container_update_cpu string int
  | Container_restart string
  | Requests_post string message
  | Db_insert string message
  | Print line

text \<open>
  Exceptions: the two Python raises the monitor can run into (division by a zero memory
  limit, \<^verbatim>\<open>tags[0]\<close> on an empty tag list), and a failed call into Docker or SQLite.
  \<open>NameConflict\<close> is the spec's error of a duplicate create; only the part modelled
  from the spec raises it.
\<close>

datatype error =
    ZeroDivisionError
  | IndexError
  | External effect
  | NameConflict

text \<open>What \<^verbatim>\<open>requests.post\<close> does: it returns a response with a status code, or raises.\<close>

datatype post_outcome = Response nat | Post_raises string

text \<open>
  The world's answers during one call of a method (for the monitor: one iteration of
  its loop). A stats reply is taken to carry the three numbers the monitor reads from
  it (\<^verbatim>\<open>cpu_stats.cpu_usage.total_usage\<close>, \<^verbatim>\<open>memory_stats.usage\<close> and
  \<^verbatim>\<open>memory_stats.limit\<close>); \<open>raises\<close> tells which calls into Docker and SQLite
  fail.
\<close>

record world =
  raises :: "effect \<Rightarrow> bool"
  image_tags :: "string \<Rightarrow> string list"
  randint :: int
  choice :: nat
  cpu_percent :: rat
  virtual_memory_percent :: rat
  stats_cpu_total_usage :: int
  stats_mem_usage :: int
  stats_mem_limit :: int
  requests_post :: "string \<Rightarrow> message \<Rightarrow> post_outcome"
  strftime :: "message \<Rightarrow> string"

section \<open>ShadowBotManager (shadow\_bot\_creator.py)\<close>

text \<open>
  The dictionary \<^verbatim>\<open>self.bots\<close> is an association list in insertion order, updated
  as a Python dict is: assigning to a present key replaces its value in place, to an
  absent key appends the pair; \<^verbatim>\<open>len\<close> is the length of the list.
\<close>

record shadow_bot_manager =
  max_bots :: int
  image_name :: string
  cpu_limit :: rat
  mem_limit :: string
  bots :: "(string \<times> container) list"
  bot_count_gauge :: int
  sbm_system_cpu_gauge :: rat
  sbm_system_mem_gauge :: rat
  sbm_trace :: "effect list"

definition ShadowBotManager_init :: "int \<Rightarrow> string \<Rightarrow> rat \<Rightarrow> string \<Rightarrow> shadow_bot_manager" where
  "ShadowBotManager_init mb img cpu mem =
     \<lparr>max_bots = mb, image_name = img, cpu_limit = cpu, mem_limit = mem, bots = [],
      bot_count_gauge = 0, sbm_system_cpu_gauge = 0, sbm_system_mem_gauge = 0,
      sbm_trace = []\<rparr>"

definition sbm_print :: "line \<Rightarrow> shadow_bot_manager \<Rightarrow> shadow_bot_manager" where
  "sbm_print l s = s\<lparr>sbm_trace := sbm_trace s @ [Print l]\<rparr>"

text \<open>
  \<^verbatim>\<open>bot_name or f"shadow_bot_{random.randint(1000, 9999)}"\<close>: both \<^verbatim>\<open>None\<close> and
  the empty string are falsy.
\<close>

definition default_bot_name :: "string option \<Rightarrow> world \<Rightarrow> string" where
  "default_bot_name bot_name w =
     (case bot_name of
        None \<Rightarrow> ''shadow_bot_'' @ str_int (randint w)
      | Some n \<Rightarrow> if n = [] then ''shadow_bot_'' @ str_int (randint w) else n)"

text \<open>
  \<^verbatim>\<open>create_shadow_bot\<close> returns the new container, or \<^verbatim>\<open>None\<close> after printing
  that the maximum is reached; a failing \<^verbatim>\<open>containers.run\<close> raises before the
  dictionary is touched.
\<close>

definition create_shadow_bot ::
  "string option \<Rightarrow> world \<Rightarrow> shadow_bot_manager \<Rightarrow> (error + container option) \<times> shadow_bot_manager" where
  "create_shadow_bot bot_name w s =
     (if int (length (bots s)) \<ge> max_bots s then (Inr None, sbm_print Line_max_reached s)
      else
        let name = default_bot_name bot_name w;
            run = Containers_run (image_name s) name (mem_limit s) (py_int (cpu_limit s * 100000))
        in if raises w run then (Inl (External run), s)
           else
             let c = \<lparr>c_name = name, c_image_tags = image_tags w (image_name s)\<rparr>;
                 s1 = s\<lparr>sbm_trace := sbm_trace s @ [run]\<rparr>;
                 s2 = s1\<lparr>bots := AList.update name c (bots s1)\<rparr>;
                 s3 = s2\<lparr>bot_count_gauge := int (length (bots s2))\<rparr>
             in (Inr (Some c), sbm_print (Line_started name) s3))"

definition stop_shadow_bot ::
  "string \<Rightarrow> world \<Rightarrow> shadow_bot_manager \<Rightarrow> (error + unit) \<times> shadow_bot_manager" where
  "stop_shadow_bot bot_name w s =
     (case map_of (bots s) bot_name of
        Some c \<Rightarrow>
          let rm = Container_remove (c_name c)
          in if raises w rm then (Inl (External rm), s)
             else
               let s1 = s\<lparr>sbm_trace := sbm_trace s @ [rm]\<rparr>;
                   s2 = s1\<lparr>bots := AList.delete bot_name (bots s1)\<rparr>;
                   s3 = s2\<lparr>bot_count_gauge := int (length (bots s2))\<rparr>
               in (Inr (), sbm_print (Line_stopped bot_name) s3)
      | None \<Rightarrow> (Inr (), sbm_print (Line_not_exists bot_name) s))"



text \<open>A sequence of calls on one manager, each with the world's answers at that call.\<close>

datatype sbm_call = Create "string option" world | Stop string world

fun sbm_step :: "sbm_call \<Rightarrow> shadow_bot_manager \<Rightarrow> shadow_bot_manager" where
  "sbm_step (Create bot_name w) s = snd (create_shadow_bot bot_name w s)"
| "sbm_step (Stop bot_name w) s = snd (stop_shadow_bot bot_name w s)"

fun sbm_run :: "sbm_call list \<Rightarrow> shadow_bot_manager \<Rightarrow> shadow_bot_manager" where
  "sbm_run [] s = s"
| "sbm_run (c # cs) s = sbm_run cs (sbm_step c s)"

section \<open>TaskManager (task\_manager.py)\<close>

text \<open>
  The fields of a TaskManager that \<^verbatim>\<open>_monitor_container\<close>, \<^verbatim>\<open>_log_event\<close> and
  \<^verbatim>\<open>_send_webhook_alert\<close> read or write. There is one \<^verbatim>\<open>load_history\<close> list per
  TaskManager, created empty by the constructor; its elements are the tuples
  \<^verbatim>\<open>(cpu_usage, mem_usage, system_cpu_usage, system_mem_usage)\<close>. The four
  Prometheus gauges hold the last number set.
\<close>

type_synonym sample = "int \<times> int \<times> rat \<times> rat"

record task_manager =
  max_containers :: int
  webhook_url :: "string option"
  containers :: "(string \<times> container) list"
  load_history :: "sample list"
  cpu_usage_gauge :: rat
  mem_usage_gauge :: rat
  system_cpu_gauge :: rat
  system_mem_gauge :: rat
  trace :: "effect list"

definition TaskManager_init :: "int \<Rightarrow> string option \<Rightarrow> task_manager" where
  "TaskManager_init mc url =
     \<lparr>max_containers = mc, webhook_url = url, containers = [], load_history = [],
      cpu_usage_gauge = 0, mem_usage_gauge = 0, system_cpu_gauge = 0, system_mem_gauge = 0,
      trace = []\<rparr>"

text \<open>
  A statement either completes (\<open>None\<close>) or raises (\<open>Some e\<close>); the state it has
  reached is kept in both cases. \<open>and_then\<close> is sequencing: what follows a raise is
  skipped.
\<close>

type_synonym outcome = "task_manager \<times> error option"

definition and_then :: "outcome \<Rightarrow> (task_manager \<Rightarrow> outcome) \<Rightarrow> outcome" where
  "and_then r f = (case r of (s, None) \<Rightarrow> f s | (s, Some e) \<Rightarrow> (s, Some e))"

definition perform :: "effect \<Rightarrow> world \<Rightarrow> task_manager \<Rightarrow> outcome" where
  "perform e w s =
     (if raises w e then (s, Some (External e)) else (s\<lparr>trace := trace s @ [e]\<rparr>, None))"

definition log_event :: "message \<Rightarrow> world \<Rightarrow> task_manager \<Rightarrow> outcome" where
  "log_event event w s = perform (Db_insert (strftime w event) event) w s"

text \<open>
  \<^verbatim>\<open>_send_webhook_alert\<close>: nothing when \<^verbatim>\<open>self.webhook_url\<close> is falsy
  (\<^verbatim>\<open>None\<close> or empty); otherwise one \<^verbatim>\<open>requests.post\<close>, whose response is
  dropped whatever its status, and whose exception is caught and printed.
\<close>

definition send_webhook_alert :: "message \<Rightarrow> world \<Rightarrow> task_manager \<Rightarrow> outcome" where
  "send_webhook_alert message w s =
     (case webhook_url s of
        None \<Rightarrow> (s, None)
      | Some url \<Rightarrow>
          if url = [] then (s, None)
          else
            (case requests_post w url message of
               Response code \<Rightarrow> (s\<lparr>trace := trace s @ [Requests_post url message]\<rparr>, None)
             | Post_raises e \<Rightarrow> (s\<lparr>trace := trace s @ [Print (Line_webhook_error e)]\<rparr>, None)))"

text \<open>The two statements that open each of the four branches of the monitor.\<close>

definition alert_and_log :: "message \<Rightarrow> world \<Rightarrow> task_manager \<Rightarrow> outcome" where
  "alert_and_log message w s = and_then (send_webhook_alert message w s) (log_event message w)"

text \<open>
  Modelled from the spec: \<^verbatim>\<open>_scale_up\<close>, which the monitor calls with the first tag
  of the container's image, is not part of the source file as given (the file ends
  after \<^verbatim>\<open>_send_webhook_alert\<close>). The spec says of the scale-out action that it
  happens "only if current count < max; otherwise suppressed, no error", and of the
  registry's create that it "fails with NameConflict if the name is already
  registered" and that a successful create adds the handle under its name. The new
  container's name is taken from the world, as the sibling class does; the limits
  passed to Docker are not specified and are left empty.
\<close>

definition scale_up :: "string \<Rightarrow> world \<Rightarrow> task_manager \<Rightarrow> outcome" where
  "scale_up img w s =
     (if int (length (containers s)) < max_containers s then
        let name = ''bot_'' @ str_int (randint w)
        in if map_of (containers s) name \<noteq> None then (s, Some NameConflict)
           else
             and_then (perform (Containers_run img name [] 0) w s)
               (\<lambda>s1. (s1\<lparr>containers :=
                          AList.update name \<lparr>c_name = name, c_image_tags = image_tags w img\<rparr>
                            (containers s1)\<rparr>, None))
      else (s, None))"

text \<open>
  Lines 75 to 77: \<^verbatim>\<open>append\<close>, then \<^verbatim>\<open>pop(0)\<close> when the list has more than 10
  elements (the list is not empty there, so \<^verbatim>\<open>pop(0)\<close> removes its head).
\<close>

definition append_sample :: "sample \<Rightarrow> sample list \<Rightarrow> sample list" where
  "append_sample x h = (let h1 = h @ [x] in if length h1 > 10 then tl h1 else h1)"

text \<open>
  Lines 79 to 82: \<^verbatim>\<open>sum(x[i] for x in self.load_history) / len(self.load_history)\<close>.
  The monitor evaluates them right after the append, on a list that is not empty.
\<close>

definition avg_cpu_of :: "sample list \<Rightarrow> rat" where
  "avg_cpu_of h = of_int (sum_list (map (\<lambda>(cpu, mem, sys_cpu, sys_mem). cpu) h)) / of_nat (length h)"

definition avg_mem_of :: "sample list \<Rightarrow> rat" where
  "avg_mem_of h = of_int (sum_list (map (\<lambda>(cpu, mem, sys_cpu, sys_mem). mem) h)) / of_nat (length h)"

definition avg_system_cpu_of :: "sample list \<Rightarrow> rat" where
  "avg_system_cpu_of h = sum_list (map (\<lambda>(cpu, mem, sys_cpu, sys_mem). sys_cpu) h) / of_nat (length h)"

definition avg_system_mem_of :: "sample list \<Rightarrow> rat" where
  "avg_system_mem_of h = sum_list (map (\<lambda>(cpu, mem, sys_cpu, sys_mem). sys_mem) h) / of_nat (length h)"

text \<open>The tuple one iteration appends: the container's stats and the host's readings.\<close>

definition sample_of :: "world \<Rightarrow> sample" where
  "sample_of w = (stats_cpu_total_usage w, stats_mem_usage w, cpu_percent w, virtual_memory_percent w)"

text \<open>
  The four \<^verbatim>\<open>if\<close> statements of the loop body (lines 90 to 112), in program order.
  Each takes the averages and the memory limit read in this iteration.
\<close>

definition grow_memory_branch ::
  "string \<Rightarrow> container \<Rightarrow> rat \<Rightarrow> int \<Rightarrow> rat \<Rightarrow> world \<Rightarrow> task_manager \<Rightarrow> outcome" where
  "grow_memory_branch bot_name c avg_mem mem_lim avg_system_mem w s =
     (if avg_mem / of_int mem_lim > 4 / 5 \<or> avg_system_mem > 85 then
        and_then (alert_and_log (Msg_grow_ram bot_name) w s)
          (perform (Container_update_mem (c_name c) (str_int (py_int (of_int mem_lim * (6 / 5))))) w)
      else (s, None))"

definition grow_cpu_branch ::
  "string \<Rightarrow> container \<Rightarrow> rat \<Rightarrow> rat \<Rightarrow> world \<Rightarrow> task_manager \<Rightarrow> outcome" where
  "grow_cpu_branch bot_name c avg_cpu avg_system_cpu w s =
     (if avg_cpu > 50000 \<or> avg_system_cpu > 85 then
        and_then (alert_and_log (Msg_grow_cpu bot_name) w s)
          (perform (Container_update_cpu (c_name c) (py_int (avg_cpu * (6 / 5)))) w)
      else (s, None))"

definition restart_branch ::
  "string \<Rightarrow> container \<Rightarrow> rat \<Rightarrow> int \<Rightarrow> rat \<Rightarrow> world \<Rightarrow> task_manager \<Rightarrow> outcome" where
  "restart_branch bot_name c avg_mem mem_lim avg_cpu w s =
     (if avg_mem / of_int mem_lim > 9 / 10 \<or> avg_cpu > 70000 then
        and_then (alert_and_log (Msg_restart bot_name) w s)
          (perform (Container_restart (c_name c)) w)
      else (s, None))"

definition scale_out_branch ::
  "container \<Rightarrow> rat \<Rightarrow> rat \<Rightarrow> int \<Rightarrow> world \<Rightarrow> task_manager \<Rightarrow> outcome" where
  "scale_out_branch c avg_cpu avg_mem mem_lim w s =
     (if avg_cpu > 60000 \<or> avg_mem / of_int mem_lim > 17 / 20 then
        and_then (alert_and_log Msg_scale_out w s)
          (\<lambda>s1. case c_image_tags c of
                  [] \<Rightarrow> (s1, Some IndexError)
                | tag # _ \<Rightarrow> scale_up tag w s1)
      else (s, None))"

text \<open>
  One iteration of \<^verbatim>\<open>while True\<close> (lines 68 to 112; the closing \<^verbatim>\<open>time.sleep(5)\<close>
  changes nothing here). The first division by \<^verbatim>\<open>mem_limit\<close> is evaluated before
  anything else in line 90, so a zero limit raises after the gauges are set and before
  any branch runs.
\<close>

definition monitor_tick :: "string \<Rightarrow> container \<Rightarrow> world \<Rightarrow> task_manager \<Rightarrow> outcome" where
  "monitor_tick bot_name c w s =
     and_then (perform (Container_stats (c_name c)) w s)
       (\<lambda>s0.
          let mem_lim = stats_mem_limit w;
              h = append_sample (sample_of w) (load_history s0);
              avg_cpu = avg_cpu_of h;
              avg_mem = avg_mem_of h;
              avg_system_cpu = avg_system_cpu_of h;
              avg_system_mem = avg_system_mem_of h;
              s1 = s0\<lparr>load_history := h, cpu_usage_gauge := avg_cpu, mem_usage_gauge := avg_mem,
                      system_cpu_gauge := avg_system_cpu, system_mem_gauge := avg_system_mem\<rparr>
          in if mem_lim = 0 then (s1, Some ZeroDivisionError)
             else
               and_then (grow_memory_branch bot_name c avg_mem mem_lim avg_system_mem w s1)
                 (\<lambda>s2. and_then (grow_cpu_branch bot_name c avg_cpu avg_system_cpu w s2)
                   (\<lambda>s3. and_then (restart_branch bot_name c avg_mem mem_lim avg_cpu w s3)
                     (scale_out_branch c avg_cpu avg_mem mem_lim w))))"

text \<open>
  \<^verbatim>\<open>_monitor_container\<close>: it returns at once when the name is not registered, and
  otherwise loops forever on the handle it looked up. The loop is run here for as many
  iterations as there are worlds in the list; \<open>None\<close> after them means that it is
  still looping, \<open>Some e\<close> that an iteration raised and ended the thread.
\<close>

fun monitor_loop :: "string \<Rightarrow> container \<Rightarrow> world list \<Rightarrow> task_manager \<Rightarrow> outcome" where
  "monitor_loop bot_name c [] s = (s, None)"
| "monitor_loop bot_name c (w # ws) s =
     and_then (monitor_tick bot_name c w s) (monitor_loop bot_name c ws)"

definition monitor_container :: "string \<Rightarrow> world list \<Rightarrow> task_manager \<Rightarrow> outcome" where
  "monitor_container bot_name ws s =
     (case map_of (containers s) bot_name of
        None \<Rightarrow> (s, None)
      | Some c \<Rightarrow> monitor_loop bot_name c ws s)"

section \<open>Notions and inputs of the statements\<close>

text \<open>A world in which no call fails and the webhook answers 200.\<close>

definition world0 :: world where
  "world0 =
     \<lparr>raises = (\<lambda>e. False), image_tags = (\<lambda>i. [i]), randint = 1234, choice = 0,
      cpu_percent = 10, virtual_memory_percent = 10, stats_cpu_total_usage = 1000,
      stats_mem_usage = 50, stats_mem_limit = 100,
      requests_post = (\<lambda>url m. Response 200), strftime = (\<lambda>m. ''t'')\<rparr>"

text \<open>
  The history after the samples \<open>xs\<close> have been appended, one iteration each, to
  the history \<open>h\<close>.
\<close>

definition record_samples :: "sample list \<Rightarrow> sample list \<Rightarrow> sample list" where
  "record_samples xs h = foldl (\<lambda>h x. append_sample x h) h xs"

text \<open>
  The part of a TaskManager that holds what was measured (history and gauges) and its
  configuration: the trace and the registry are blanked.
\<close>

definition measured :: "task_manager \<Rightarrow> task_manager" where
  "measured s = s\<lparr>trace := [], containers := []\<rparr>"




text \<open>
  The effects of \<^verbatim>\<open>_send_webhook_alert\<close>: the post itself and the line printed when
  the post raised.
\<close>

fun is_alert :: "effect \<Rightarrow> bool" where
  "is_alert (Requests_post url m) = True"
| "is_alert (Print (Line_webhook_error e)) = True"
| "is_alert e = False"

text \<open>
  A state with the alert effects removed from its trace, and two outcomes that agree
  on everything but the alert effects.
\<close>

definition without_alerts :: "task_manager \<Rightarrow> task_manager" where
  "without_alerts s = s\<lparr>trace := filter (\<lambda>e. \<not> is_alert e) (trace s)\<rparr>"

definition alike :: "outcome \<Rightarrow> outcome \<Rightarrow> bool" where
  "alike a b = (without_alerts (fst a) = without_alerts (fst b) \<and> snd a = snd b)"





text \<open>
  What \<open>send_webhook_alert\<close> appends to the trace, and what the alert followed by
  the log insert appends.
\<close>

definition alert_effects :: "string option \<Rightarrow> world \<Rightarrow> message \<Rightarrow> effect list" where
  "alert_effects u w m =
     (case u of
        None \<Rightarrow> []
      | Some url \<Rightarrow>
          if url = [] then []
          else (case requests_post w url m of
                  Response code \<Rightarrow> [Requests_post url m]
                | Post_raises e \<Rightarrow> [Print (Line_webhook_error e)]))"

definition announced :: "string option \<Rightarrow> world \<Rightarrow> message \<Rightarrow> effect list" where
  "announced u w m = alert_effects u w m @ [Db_insert (strftime w m) m]"

text \<open>
  What each branch of an iteration appends to the trace when no call fails, given the
  history \<open>h\<close> after the append and the webhook setting \<open>u\<close>; \<open>scales_out\<close> is the
  condition of the fourth branch.
\<close>

definition grow_memory_effects :: "string \<Rightarrow> container \<Rightarrow> world \<Rightarrow> string option \<Rightarrow> sample list \<Rightarrow> effect list" where
  "grow_memory_effects b c w u h =
     (if avg_mem_of h / of_int (stats_mem_limit w) > 4 / 5 \<or> avg_system_mem_of h > 85
      then announced u w (Msg_grow_ram b) @
           [Container_update_mem (c_name c) (str_int (py_int (of_int (stats_mem_limit w) * (6 / 5))))]
      else [])"

definition grow_cpu_effects :: "string \<Rightarrow> container \<Rightarrow> world \<Rightarrow> string option \<Rightarrow> sample list \<Rightarrow> effect list" where
  "grow_cpu_effects b c w u h =
     (if avg_cpu_of h > 50000 \<or> avg_system_cpu_of h > 85
      then announced u w (Msg_grow_cpu b) @ [Container_update_cpu (c_name c) (py_int (avg_cpu_of h * (6 / 5)))]
      else [])"

definition restart_effects :: "string \<Rightarrow> container \<Rightarrow> world \<Rightarrow> string option \<Rightarrow> sample list \<Rightarrow> effect list" where
  "restart_effects b c w u h =
     (if avg_mem_of h / of_int (stats_mem_limit w) > 9 / 10 \<or> avg_cpu_of h > 70000
      then announced u w (Msg_restart b) @ [Container_restart (c_name c)]
      else [])"

definition scales_out :: "world \<Rightarrow> sample list \<Rightarrow> bool" where
  "scales_out w h = (avg_cpu_of h > 60000 \<or> avg_mem_of h / of_int (stats_mem_limit w) > 17 / 20)"

definition tick_effects :: "string \<Rightarrow> container \<Rightarrow> world \<Rightarrow> string option \<Rightarrow> sample list \<Rightarrow> effect list" where
  "tick_effects b c w u h =
     [Container_stats (c_name c)] @ grow_memory_effects b c w u h @ grow_cpu_effects b c w u h @
     restart_effects b c w u h @ (if scales_out w h then announced u w Msg_scale_out else [])"

text \<open>
  The effects of one iteration: what it has appended to the trace.
\<close>

definition effects_of_tick :: "string \<Rightarrow> container \<Rightarrow> world \<Rightarrow> task_manager \<Rightarrow> effect list" where
  "effects_of_tick b c w s = drop (length (trace s)) (trace (fst (monitor_tick b c w s)))"


text \<open>
  The two \<^verbatim>\<open>container.update\<close> calls.
\<close>

fun is_update :: "effect \<Rightarrow> bool" where
  "is_update (Container_update_mem n v) = True"
| "is_update (Container_update_cpu n v) = True"
| "is_update e = False"







text \<open>
  Two registered containers \<open>a\<close> and \<open>b\<close> on one TaskManager, a world in which the
  monitored container has used a million CPU units, and the manager after one iteration
  of the monitor of \<open>a\<close> in that world.
\<close>

definition bot_a :: container where
  "bot_a = \<lparr>c_name = ''a'', c_image_tags = [''img:latest'']\<rparr>"

definition bot_b :: container where
  "bot_b = \<lparr>c_name = ''b'', c_image_tags = [''img:latest'']\<rparr>"

definition manager_ab :: task_manager where
  "manager_ab = (TaskManager_init 3 None)\<lparr>containers := [(''a'', bot_a), (''b'', bot_b)]\<rparr>"

definition world_heavy :: world where
  "world_heavy = world0\<lparr>stats_cpu_total_usage := 1000000\<rparr>"

definition after_tick_of_a :: task_manager where
  "after_tick_of_a = fst (monitor_tick ''a'' bot_a world_heavy manager_ab)"






section \<open>The task queue\<close>

text \<open>
  Line 20 of \<^verbatim>\<open>task_manager.py\<close> creates \<^verbatim>\<open>queue.PriorityQueue()\<close>. That class of
  the Python standard library keeps its entries in a list and puts with
  \<^verbatim>\<open>heapq.heappush\<close> and gets with \<^verbatim>\<open>heapq.heappop\<close>; the functions below are
  those of \<^verbatim>\<open>heapq\<close> (\<^verbatim>\<open>_siftdown\<close>, \<^verbatim>\<open>_siftup\<close>, \<^verbatim>\<open>heappush\<close>,
  \<^verbatim>\<open>heappop\<close>), on a list updated by index. Python compares entries with
  \<^verbatim>\<open><\<close>; here an entry is compared by its \<open>key\<close>, a value of a linear order.
  \<^verbatim>\<open>heappop\<close> on an empty list raises IndexError, which the queue never lets
  happen: its \<^verbatim>\<open>get\<close> waits instead. Both are \<open>None\<close> here.
\<close>

text \<open>
  \<^verbatim>\<open>_siftdown(heap, startpos, pos)\<close>: the item at \<open>pos\<close> moves towards
  \<open>startpos\<close> past every parent it is below; the parents move down one level each.
  Here the item is passed along, as the local \<^verbatim>\<open>newitem\<close> is in the source.
\<close>

function siftdown :: "('a \<Rightarrow> 'k::linorder) \<Rightarrow> 'a list \<Rightarrow> nat \<Rightarrow> nat \<Rightarrow> 'a \<Rightarrow> 'a list" where
  "siftdown key heap startpos pos newitem =
     (if pos > startpos then
        let parentpos = (pos - 1) div 2;
            parent = heap ! parentpos
        in if key newitem < key parent
           then siftdown key (heap[pos := parent]) startpos parentpos newitem
           else heap[pos := newitem]
      else heap[pos := newitem])"
  by pat_completeness auto
termination
  by (relation "measure (\<lambda>(key, heap, startpos, pos, newitem). pos)") auto

declare siftdown.simps [simp del]

text \<open>
  The \<^verbatim>\<open>while\<close> loop of \<^verbatim>\<open>_siftup\<close>: the smaller child is moved up until the
  position has no child; it returns the list and the position reached.
\<close>

function siftup_loop :: "('a \<Rightarrow> 'k::linorder) \<Rightarrow> 'a list \<Rightarrow> nat \<Rightarrow> nat \<Rightarrow> 'a list \<times> nat" where
  "siftup_loop key heap endpos pos =
     (let childpos = 2 * pos + 1
      in if childpos < endpos then
           let rightpos = childpos + 1;
               childpos = (if rightpos < endpos \<and> \<not> key (heap ! childpos) < key (heap ! rightpos)
                           then rightpos else childpos)
           in siftup_loop key (heap[pos := heap ! childpos]) endpos childpos
         else (heap, pos))"
  by pat_completeness auto
termination
  by (relation "measure (\<lambda>(key, heap, endpos, pos). endpos - pos)") auto

declare siftup_loop.simps [simp del]

text \<open>
  \<^verbatim>\<open>_siftup(heap, pos)\<close>: the loop above, then \<^verbatim>\<open>_siftdown\<close> from the leaf
  reached back towards \<open>pos\<close>. \<^verbatim>\<open>heappush\<close> appends and sifts the new last item;
  \<^verbatim>\<open>heappop\<close> takes off the last item and, when others remain, returns the first,
  puts the last in its place and sifts it.
\<close>

definition siftup :: "('a \<Rightarrow> 'k::linorder) \<Rightarrow> 'a list \<Rightarrow> nat \<Rightarrow> 'a list" where
  "siftup key heap pos =
     (let newitem = heap ! pos;
          (heap1, pos1) = siftup_loop key heap (length heap) pos
      in siftdown key heap1 pos pos1 newitem)"

definition heappush :: "('a \<Rightarrow> 'k::linorder) \<Rightarrow> 'a list \<Rightarrow> 'a \<Rightarrow> 'a list" where
  "heappush key heap item = siftdown key (heap @ [item]) 0 (length heap) item"

definition heappop :: "('a \<Rightarrow> 'k::linorder) \<Rightarrow> 'a list \<Rightarrow> ('a \<times> 'a list) option" where
  "heappop key heap =
     (if heap = [] then None
      else
        let lastelt = last heap;
            heap1 = butlast heap
        in if heap1 \<noteq> [] then Some (heap1 ! 0, siftup key (heap1[0 := lastelt]) 0)
           else Some (lastelt, heap1))"

text \<open>
  The index of the parent, and the heap invariant of \<^verbatim>\<open>heapq\<close>: no entry is below
  its parent.
\<close>

definition parent_of :: "nat \<Rightarrow> nat" where
  "parent_of i = (i - 1) div 2"

definition heap_inv :: "('a \<Rightarrow> 'k::linorder) \<Rightarrow> 'a list \<Rightarrow> bool" where
  "heap_inv key h = (\<forall>i. 0 < i \<and> i < length h \<longrightarrow> key (h ! parent_of i) \<le> key (h ! i))"

text \<open>
  The invariant while an entry moves up from position \<open>p\<close>: every entry but the one
  at \<open>p\<close> is in order with its parent, and the children of \<open>p\<close> are in order with
  the parent of \<open>p\<close>.
\<close>

definition heap_but_up :: "('a \<Rightarrow> 'k::linorder) \<Rightarrow> 'a list \<Rightarrow> nat \<Rightarrow> bool" where
  "heap_but_up key h p =
     ((\<forall>i. 0 < i \<and> i < length h \<and> i \<noteq> p \<longrightarrow> key (h ! parent_of i) \<le> key (h ! i)) \<and>
      (\<forall>i. 0 < i \<and> i < length h \<and> parent_of i = p \<and> 0 < p \<longrightarrow> key (h ! parent_of p) \<le> key (h ! i)))"

text \<open>
  The invariant while the hole moves down in \<^verbatim>\<open>_siftup\<close>: every entry is in order
  with its parent where neither is the hole, and the children of the hole are in order
  with its parent.
\<close>

definition heap_hole :: "('a \<Rightarrow> 'k::linorder) \<Rightarrow> 'a list \<Rightarrow> nat \<Rightarrow> bool" where
  "heap_hole key h p =
     ((\<forall>i. 0 < i \<and> i < length h \<and> i \<noteq> p \<and> parent_of i \<noteq> p \<longrightarrow> key (h ! parent_of i) \<le> key (h ! i)) \<and>
      (\<forall>i. 0 < i \<and> i < length h \<and> parent_of i = p \<and> 0 < p \<longrightarrow> key (h ! parent_of p) \<le> key (h ! i)))"

text \<open>
  Modelled from the spec: the methods that put tasks into the queue and get them out
  are not part of the source file as given (it ends after \<^verbatim>\<open>_send_webhook_alert\<close>).
  The spec says that a task has a "priority (ordering key; lower-first)", a payload and
  an enqueue timestamp "used only as a tie-break", that push inserts and that pop
  "returns the lowest-priority-value task, breaking ties by enqueue order". An entry of
  the queue is therefore the tuple of the priority, the number of pushes before it and
  the payload, compared as Python compares tuples, on the first two components (the
  second is never equal for two entries). \<open>pop\<close> is \<open>None\<close> where
  \<^verbatim>\<open>get\<close> would wait on an empty queue.
\<close>

type_synonym 'a entry = "int \<times> nat \<times> 'a"

definition entry_key :: "'a entry \<Rightarrow> int \<times> nat" where
  "entry_key e = (fst e, fst (snd e))"

record 'a task_queue =
  queue :: "'a entry list"
  pushed :: nat

definition empty_queue :: "'a task_queue" where
  "empty_queue = \<lparr>queue = [], pushed = 0\<rparr>"

definition push :: "int \<Rightarrow> 'a \<Rightarrow> 'a task_queue \<Rightarrow> 'a task_queue" where
  "push priority task q =
     \<lparr>queue = heappush entry_key (queue q) (priority, pushed q, task), pushed = Suc (pushed q)\<rparr>"

definition pop :: "'a task_queue \<Rightarrow> ('a entry \<times> 'a task_queue) option" where
  "pop q =
     (case heappop entry_key (queue q) of
        None \<Rightarrow> None
      | Some (e, h) \<Rightarrow> Some (e, q\<lparr>queue := h\<rparr>))"

text \<open>
  A sequence of pushes and pops by one thread, from the empty queue; it is \<open>None\<close>
  when a pop would wait for ever.
\<close>

datatype 'a queue_op = Push int 'a | Pop

fun run_queue :: "'a queue_op list \<Rightarrow> 'a task_queue \<Rightarrow> 'a task_queue option" where
  "run_queue [] q = Some q"
| "run_queue (Push priority task # ops) q = run_queue ops (push priority task q)"
| "run_queue (Pop # ops) q = (case pop q of None \<Rightarrow> None | Some (e, q') \<Rightarrow> run_queue ops q')"

text \<open>
  What holds of every queue reached: the list is a heap, and the enqueue numbers are
  distinct and below the number of pushes.
\<close>

definition queue_ok :: "'a task_queue \<Rightarrow> bool" where
  "queue_ok q =
     (heap_inv entry_key (queue q) \<and> (\<forall>e \<in> set (queue q). fst (snd e) < pushed q) \<and>
      distinct (map (\<lambda>e. fst (snd e)) (queue q)))"

text \<open>
  The queue after pushing the priorities 5, 1, 3, and the queue after pushing four tasks
  of priority 2 and popping once.
\<close>

definition queue_513 :: "string task_queue" where
  "queue_513 = \<lparr>queue = [(1, 1, ''b''), (5, 0, ''a''), (3, 2, ''c'')], pushed = 3\<rparr>"

definition queue_ties :: "string task_queue" where
  "queue_ties = \<lparr>queue = [(2, 1, ''y''), (2, 3, ''u''), (2, 2, ''z'')], pushed = 4\<rparr>"

section \<open>Properties of ShadowBotManager\<close>

lemma length_alist_update: "length (AList.update k v al) \<le> Suc (length al)"
  by (induction al) auto

lemma length_alist_delete: "length (AList.delete k al) \<le> length al"
  by (simp add: AList.delete_eq)

lemma create_shadow_bot_config:
  "max_bots (snd (create_shadow_bot n w s)) = max_bots s"
  by (simp add: create_shadow_bot_def sbm_print_def Let_def)

lemma stop_shadow_bot_config:
  "max_bots (snd (stop_shadow_bot n w s)) = max_bots s"
  by (simp add: stop_shadow_bot_def sbm_print_def Let_def split: option.splits)

lemma create_shadow_bot_bound:
  assumes "int (length (bots s)) \<le> max_bots s"
  shows "int (length (bots (snd (create_shadow_bot n w s)))) \<le> max_bots s"
proof (cases "int (length (bots s)) \<ge> max_bots s")
  case True
  then show ?thesis
    using assms by (simp add: create_shadow_bot_def sbm_print_def)
next
  case False
  have "int (length (AList.update k c (bots s))) \<le> max_bots s" for k c
    using length_alist_update [of k c "bots s"] False by linarith
  with assms show ?thesis
    by (simp add: create_shadow_bot_def sbm_print_def Let_def)
qed

lemma stop_shadow_bot_bound:
  assumes "int (length (bots s)) \<le> max_bots s"
  shows "int (length (bots (snd (stop_shadow_bot n w s)))) \<le> max_bots s"
proof -
  have "length (AList.delete n (bots s)) \<le> length (bots s)"
    by (rule length_alist_delete)
  with assms show ?thesis
    by (auto simp add: stop_shadow_bot_def sbm_print_def Let_def split: option.splits)
qed

lemma sbm_step_bound:
  assumes "int (length (bots s)) \<le> max_bots s"
  shows "int (length (bots (sbm_step c s))) \<le> max_bots (sbm_step c s)"
  using assms
  by (cases c)
     (simp_all add: create_shadow_bot_bound stop_shadow_bot_bound
        create_shadow_bot_config stop_shadow_bot_config)

lemma sbm_run_bound:
  assumes "int (length (bots s)) \<le> max_bots s"
  shows "int (length (bots (sbm_run cs s))) \<le> max_bots (sbm_run cs s)"
  using assms
  by (induction cs arbitrary: s) (simp_all add: sbm_step_bound)

lemma sbm_step_config: "max_bots (sbm_step c s) = max_bots s"
  by (cases c) (simp_all add: create_shadow_bot_config stop_shadow_bot_config)

lemma sbm_run_config: "max_bots (sbm_run cs s) = max_bots s"
  by (induction cs arbitrary: s) (simp_all add: sbm_step_config)

lemma sbm_run_distinct:
  "distinct (map fst (bots s)) \<Longrightarrow> distinct (map fst (bots (sbm_run cs s)))"
proof (induction cs arbitrary: s)
  case Nil
  then show ?case by simp
next
  case (Cons c cs)
  have "distinct (map fst (bots (sbm_step c s)))"
    using Cons.prems
    by (cases c)
       (simp_all add: create_shadow_bot_def stop_shadow_bot_def sbm_print_def Let_def
          distinct_update distinct_delete split: option.splits)
  then show ?case
    using Cons.IH by simp
qed

text \<open>
  C1. Starting from a freshly constructed manager with a non-negative \<open>max_bots\<close>,
  after every sequence of \<open>create_shadow_bot\<close> and \<open>stop_shadow_bot\<close> calls
  (whatever the names, and whether or not Docker fails in any of them) the dictionary
  holds at most \<open>max_bots\<close> entries. A create on a manager that already holds
  \<open>max_bots\<close> entries is refused: it returns \<^verbatim>\<open>None\<close>, and the state is the
  one before the call but for the printed line saying that the maximum is reached.
  The refusal by \<^verbatim>\<open>None\<close> is the code's form of the spec's CapacityExceeded.
\<close>

theorem registry_never_exceeds_max_bots:
  assumes "0 \<le> mb"
  shows "int (length (bots (sbm_run cs (ShadowBotManager_init mb img cpu mem)))) \<le> mb \<and>
         (\<forall>n w s. max_bots s \<le> int (length (bots s)) \<longrightarrow>
            create_shadow_bot n w s =
              (Inr None, s\<lparr>sbm_trace := sbm_trace s @ [Print Line_max_reached]\<rparr>))"
proof -
  let ?s0 = "ShadowBotManager_init mb img cpu mem"
  have "int (length (bots ?s0)) \<le> max_bots ?s0"
    using assms by (simp add: ShadowBotManager_init_def)
  then have "int (length (bots (sbm_run cs ?s0))) \<le> max_bots (sbm_run cs ?s0)"
    by (rule sbm_run_bound)
  moreover have "max_bots (sbm_run cs ?s0) = mb"
    by (simp add: sbm_run_config ShadowBotManager_init_def)
  ultimately show ?thesis
    by (simp add: create_shadow_bot_def sbm_print_def)
qed

theorem registry_never_exceeds_max_bots_witness:
  "(0::int) \<le> 1 \<and>
   int (length (bots (sbm_run [Create (Some ''a'') world0, Create (Some ''b'') world0]
       (ShadowBotManager_init 1 ''shadow_bot_image'' (1 / 2) ''256m'')))) \<le> 1 \<and>
   max_bots (sbm_run [Create (Some ''a'') world0] (ShadowBotManager_init 1 ''shadow_bot_image'' (1 / 2) ''256m''))
     \<le> int (length (bots (sbm_run [Create (Some ''a'') world0] (ShadowBotManager_init 1 ''shadow_bot_image'' (1 / 2) ''256m'')))) \<and>
   fst (create_shadow_bot (Some ''b'') world0
     (sbm_run [Create (Some ''a'') world0] (ShadowBotManager_init 1 ''shadow_bot_image'' (1 / 2) ''256m''))) = Inr None \<and>
   bots (snd (create_shadow_bot (Some ''b'') world0
     (sbm_run [Create (Some ''a'') world0] (ShadowBotManager_init 1 ''shadow_bot_image'' (1 / 2) ''256m''))))
   = [(''a'', \<lparr>c_name = ''a'', c_image_tags = [''shadow_bot_image'']\<rparr>)]"
proof -
  let ?s0 = "ShadowBotManager_init 1 ''shadow_bot_image'' (1 / 2) ''256m''"
  let ?s1 = "sbm_run [Create (Some ''a'') world0] ?s0"
  have s1: "bots ?s1 = [(''a'', \<lparr>c_name = ''a'', c_image_tags = [''shadow_bot_image'']\<rparr>)]"
    "max_bots ?s1 = 1"
    by (simp_all add: create_shadow_bot_def ShadowBotManager_init_def default_bot_name_def
          world0_def sbm_print_def Let_def)
  have full: "max_bots ?s1 \<le> int (length (bots ?s1))"
    by (simp only: s1) simp
  from registry_never_exceeds_max_bots [of 1 "[Create (Some ''a'') world0, Create (Some ''b'') world0]"
      "''shadow_bot_image''" "1 / 2" "''256m''"]
  have a: "int (length (bots (sbm_run [Create (Some ''a'') world0, Create (Some ''b'') world0] ?s0))) \<le> 1"
    and b: "\<forall>n w s. max_bots s \<le> int (length (bots s)) \<longrightarrow>
            create_shadow_bot n w s =
              (Inr None, s\<lparr>sbm_trace := sbm_trace s @ [Print Line_max_reached]\<rparr>)"
    by simp_all
  from b full have c: "create_shadow_bot (Some ''b'') world0 ?s1 =
      (Inr None, ?s1\<lparr>sbm_trace := sbm_trace ?s1 @ [Print Line_max_reached]\<rparr>)"
    by blast
  show ?thesis
    using a full c s1 by simp
qed

section \<open>The load history and the smoothed values\<close>

lemma append_sample_length: "length h \<le> 10 \<Longrightarrow> length (append_sample x h) \<le> 10"
  by (simp add: append_sample_def Let_def)

lemma append_sample_last_ten:
  "append_sample x (drop (length xs - 10) xs) = drop (length (xs @ [x]) - 10) (xs @ [x])"
proof (cases "length xs < 10")
  case True
  then show ?thesis by (simp add: append_sample_def Let_def)
next
  case False
  then obtain k where k: "length xs = 10 + k"
    by (metis add.commute le_Suc_ex linorder_not_less)
  then have ne: "drop k xs \<noteq> []" by simp
  have "tl (drop k xs @ [x]) = tl (drop k xs) @ [x]"
    using ne by simp
  also have "tl (drop k xs) = drop (Suc k) xs"
    by (simp add: drop_Suc tl_drop)
  finally show ?thesis
    using k by (simp add: append_sample_def Let_def)
qed

lemma record_samples_snoc: "record_samples (xs @ [x]) h = append_sample x (record_samples xs h)"
  by (simp add: record_samples_def)

lemma record_samples_last_ten: "record_samples xs [] = drop (length xs - 10) xs"
proof (induction xs rule: rev_induct)
  case Nil
  then show ?case by (simp add: record_samples_def)
next
  case (snoc x xs)
  then show ?case
    by (simp only: record_samples_snoc append_sample_last_ten)
qed

lemma measured_fields [simp]:
  "load_history (measured s) = load_history s"
  "cpu_usage_gauge (measured s) = cpu_usage_gauge s"
  "mem_usage_gauge (measured s) = mem_usage_gauge s"
  "system_cpu_gauge (measured s) = system_cpu_gauge s"
  "system_mem_gauge (measured s) = system_mem_gauge s"
  "max_containers (measured s) = max_containers s"
  "webhook_url (measured s) = webhook_url s"
  by (simp_all add: measured_def)

lemma and_then_None [simp]: "and_then (s, None) f = f s"
  by (simp add: and_then_def)

lemma and_then_Some [simp]: "and_then (s, Some e) f = (s, Some e)"
  by (simp add: and_then_def)

lemma and_then_measured:
  assumes "measured (fst r) = m" and "\<And>s. measured (fst (f s)) = measured s"
  shows "measured (fst (and_then r f)) = m"
  using assms by (cases r) (auto simp add: and_then_def split: option.splits)

lemma perform_measured [simp]: "measured (fst (perform e w s)) = measured s"
  by (simp add: perform_def measured_def)

lemma log_event_measured [simp]: "measured (fst (log_event m w s)) = measured s"
  by (simp add: log_event_def)

lemma send_webhook_alert_measured [simp]: "measured (fst (send_webhook_alert m w s)) = measured s"
  by (simp add: send_webhook_alert_def measured_def split: option.splits post_outcome.splits)

lemma alert_and_log_measured [simp]: "measured (fst (alert_and_log m w s)) = measured s"
  unfolding alert_and_log_def by (rule and_then_measured) simp_all

lemma scale_up_measured [simp]: "measured (fst (scale_up img w s)) = measured s"
proof -
  have "measured (fst (and_then (perform e w s) (\<lambda>s1. (s1\<lparr>containers := g s1\<rparr>, None)))) = measured s" for e g
  proof (rule and_then_measured)
    show "measured (fst (perform e w s)) = measured s" by simp
    show "measured (fst (s1\<lparr>containers := g s1\<rparr>, None)) = measured s1" for s1
      by (simp add: measured_def)
  qed
  then show ?thesis
    by (simp add: scale_up_def Let_def)
qed

lemma grow_memory_branch_measured [simp]:
  "measured (fst (grow_memory_branch b c am ml asm w s)) = measured s"
  unfolding grow_memory_branch_def
  by (simp add: and_then_measured)

lemma grow_cpu_branch_measured [simp]:
  "measured (fst (grow_cpu_branch b c ac asc w s)) = measured s"
  unfolding grow_cpu_branch_def
  by (simp add: and_then_measured)

lemma restart_branch_measured [simp]:
  "measured (fst (restart_branch b c am ml ac w s)) = measured s"
  unfolding restart_branch_def
  by (simp add: and_then_measured)

lemma scale_out_branch_measured [simp]:
  "measured (fst (scale_out_branch c ac am ml w s)) = measured s"
proof -
  have "measured (fst (case c_image_tags c of [] \<Rightarrow> (s1, Some IndexError) | tag # x \<Rightarrow> scale_up tag w s1)) = measured s1" for s1
    by (simp split: list.splits)
  then show ?thesis
    unfolding scale_out_branch_def by (simp add: and_then_measured)
qed

lemma monitor_tick_measured:
  "measured (fst (monitor_tick b c w s)) =
     (if raises w (Container_stats (c_name c)) then measured s
      else let h = append_sample (sample_of w) (load_history s)
           in measured (s\<lparr>load_history := h, cpu_usage_gauge := avg_cpu_of h,
                mem_usage_gauge := avg_mem_of h, system_cpu_gauge := avg_system_cpu_of h,
                system_mem_gauge := avg_system_mem_of h\<rparr>))"
proof (cases "raises w (Container_stats (c_name c))")
  case True
  then show ?thesis
    by (simp add: monitor_tick_def perform_def and_then_def)
next
  case False
  have chain: "measured (fst (and_then (grow_memory_branch b c am ml asm w s1)
                 (\<lambda>s2. and_then (grow_cpu_branch b c ac asc w s2)
                   (\<lambda>s3. and_then (restart_branch b c am ml ac w s3)
                     (scale_out_branch c ac am ml w))))) = measured s1" for am ml asm ac asc s1
    by (intro and_then_measured) simp_all
  define h where "h = append_sample (sample_of w) (load_history s)"
  define s1 where "s1 = s\<lparr>trace := trace s @ [Container_stats (c_name c)], load_history := h,
      cpu_usage_gauge := avg_cpu_of h, mem_usage_gauge := avg_mem_of h,
      system_cpu_gauge := avg_system_cpu_of h, system_mem_gauge := avg_system_mem_of h\<rparr>"
  have "measured (fst (monitor_tick b c w s)) = measured s1"
    using False
    by (simp add: monitor_tick_def perform_def Let_def chain flip: h_def s1_def)
  also have "\<dots> = measured (s\<lparr>load_history := h, cpu_usage_gauge := avg_cpu_of h,
                mem_usage_gauge := avg_mem_of h, system_cpu_gauge := avg_system_cpu_of h,
                system_mem_gauge := avg_system_mem_of h\<rparr>)"
    by (simp add: s1_def measured_def)
  finally show ?thesis
    using False by (simp add: Let_def h_def)
qed

lemma monitor_tick_history:
  "load_history (fst (monitor_tick b c w s)) =
     (if raises w (Container_stats (c_name c)) then load_history s
      else append_sample (sample_of w) (load_history s))"
proof -
  have "load_history (fst (monitor_tick b c w s)) = load_history (measured (fst (monitor_tick b c w s)))"
    by simp
  also have "\<dots> = (if raises w (Container_stats (c_name c)) then load_history s
      else append_sample (sample_of w) (load_history s))"
    by (simp only: monitor_tick_measured) (simp add: Let_def measured_def)
  finally show ?thesis .
qed

lemma monitor_tick_length:
  "length (load_history s) \<le> 10 \<Longrightarrow> length (load_history (fst (monitor_tick b c w s))) \<le> 10"
  by (simp add: monitor_tick_history append_sample_length)

lemma monitor_loop_length:
  "length (load_history s) \<le> 10 \<Longrightarrow> length (load_history (fst (monitor_loop b c ws s))) \<le> 10"
proof (induction ws arbitrary: s)
  case Nil
  then show ?case by simp
next
  case (Cons w ws)
  obtain s1 r where t: "monitor_tick b c w s = (s1, r)"
    by (cases "monitor_tick b c w s")
  then have "length (load_history s1) \<le> 10"
    using monitor_tick_length [OF Cons.prems, of b c w] by simp
  with Cons.IH [of s1] t show ?case
    by (cases r) (simp_all add: and_then_def)
qed

text \<open>
  C4. The load history keeps the ten most recent samples, oldest evicted first. After
  the samples \<open>xs\<close> have been appended to the empty history of a new TaskManager,
  the list holds exactly the last ten of them, in order (after \<open>10 + k\<close> samples:
  all but the first \<open>k\<close>), so its length is the smaller of \<open>length xs\<close> and 10.
  An iteration of the monitor appends its one sample in this way (or leaves the history
  alone when the stats call fails), and however many iterations run from an empty
  history, however they end, the history holds at most ten samples. Iterations are
  taken one after the other; interleaved threads are outside this model.
\<close>

theorem load_history_keeps_last_ten:
  "record_samples xs [] = drop (length xs - 10) xs \<and>
   length (record_samples xs []) = min (length xs) 10 \<and>
   load_history (fst (monitor_tick b c w s)) =
     (if raises w (Container_stats (c_name c)) then load_history s
      else record_samples [sample_of w] (load_history s)) \<and>
   length (load_history (fst (monitor_loop b c ws (s\<lparr>load_history := []\<rparr>)))) \<le> 10"
proof -
  have "length (load_history (fst (monitor_loop b c ws (s\<lparr>load_history := []\<rparr>)))) \<le> 10"
    by (rule monitor_loop_length) simp
  then show ?thesis
    by (simp add: record_samples_last_ten monitor_tick_history) (simp add: record_samples_def)
qed




section \<open>Alerts and the event log\<close>

lemma without_alerts_simps [simp]:
  "trace (without_alerts s) = filter (\<lambda>e. \<not> is_alert e) (trace s)"
  "webhook_url (without_alerts s) = webhook_url s"
  "containers (without_alerts s) = containers s"
  "max_containers (without_alerts s) = max_containers s"
  "load_history (without_alerts s) = load_history s"
  "without_alerts (s\<lparr>trace := t\<rparr>) = (without_alerts s)\<lparr>trace := filter (\<lambda>e. \<not> is_alert e) t\<rparr>"
  "without_alerts (s\<lparr>containers := cs\<rparr>) = (without_alerts s)\<lparr>containers := cs\<rparr>"
  by (simp_all add: without_alerts_def)


lemma alike_refl [simp]: "alike a a"
  by (simp add: alike_def)



















section \<open>An iteration in a world where no call fails\<close>

lemma send_webhook_alert_eq:
  "send_webhook_alert m w s = (s\<lparr>trace := trace s @ alert_effects (webhook_url s) w m\<rparr>, None)"
  by (simp add: send_webhook_alert_def alert_effects_def split: option.splits post_outcome.splits)

lemma alert_and_log_calm:
  assumes "\<not> raises w (Db_insert (strftime w m) m)"
  shows "alert_and_log m w s = (s\<lparr>trace := trace s @ announced (webhook_url s) w m\<rparr>, None)"
  using assms
  by (simp add: alert_and_log_def send_webhook_alert_eq log_event_def perform_def announced_def)

lemma perform_calm: "\<not> raises w e \<Longrightarrow> perform e w s = (s\<lparr>trace := trace s @ [e]\<rparr>, None)"
  by (simp add: perform_def)

lemma grow_memory_branch_calm:
  assumes "\<forall>e. \<not> raises w e"
  shows "grow_memory_branch b c (avg_mem_of h) (stats_mem_limit w) (avg_system_mem_of h) w s =
     (s\<lparr>trace := trace s @ grow_memory_effects b c w (webhook_url s) h\<rparr>, None)"
  using assms
  by (simp add: grow_memory_branch_def grow_memory_effects_def alert_and_log_calm perform_calm)

lemma grow_cpu_branch_calm:
  assumes "\<forall>e. \<not> raises w e"
  shows "grow_cpu_branch b c (avg_cpu_of h) (avg_system_cpu_of h) w s =
     (s\<lparr>trace := trace s @ grow_cpu_effects b c w (webhook_url s) h\<rparr>, None)"
  using assms
  by (simp add: grow_cpu_branch_def grow_cpu_effects_def alert_and_log_calm perform_calm)

lemma restart_branch_calm:
  assumes "\<forall>e. \<not> raises w e"
  shows "restart_branch b c (avg_mem_of h) (stats_mem_limit w) (avg_cpu_of h) w s =
     (s\<lparr>trace := trace s @ restart_effects b c w (webhook_url s) h\<rparr>, None)"
  using assms
  by (simp add: restart_branch_def restart_effects_def alert_and_log_calm perform_calm)

lemma scale_out_branch_calm:
  assumes "\<forall>e. \<not> raises w e"
  shows "scale_out_branch c (avg_cpu_of h) (avg_mem_of h) (stats_mem_limit w) w s =
     (if scales_out w h
      then (case c_image_tags c of
              [] \<Rightarrow> (s\<lparr>trace := trace s @ announced (webhook_url s) w Msg_scale_out\<rparr>, Some IndexError)
            | tag # x \<Rightarrow> scale_up tag w (s\<lparr>trace := trace s @ announced (webhook_url s) w Msg_scale_out\<rparr>))
      else (s, None))"
  using assms
  by (simp add: scale_out_branch_def scales_out_def alert_and_log_calm)

lemma monitor_tick_calm:
  fixes w :: world and s :: task_manager and b :: string and c :: container
  assumes calm: "\<forall>e. \<not> raises w e" and lim: "stats_mem_limit w \<noteq> 0"
  defines "h \<equiv> append_sample (sample_of w) (load_history s)"
  defines "s3 \<equiv> s\<lparr>load_history := h, cpu_usage_gauge := avg_cpu_of h, mem_usage_gauge := avg_mem_of h,
                  system_cpu_gauge := avg_system_cpu_of h, system_mem_gauge := avg_system_mem_of h,
                  trace := trace s @ tick_effects b c w (webhook_url s) h\<rparr>"
  shows "monitor_tick b c w s =
     (if scales_out w h
      then (case c_image_tags c of [] \<Rightarrow> (s3, Some IndexError) | tag # x \<Rightarrow> scale_up tag w s3)
      else (s3, None))"
  using calm lim
  by (simp add: monitor_tick_def Let_def perform_calm grow_memory_branch_calm grow_cpu_branch_calm
        restart_branch_calm scale_out_branch_calm s3_def h_def tick_effects_def
        split: list.splits)

lemma scale_up_trace:
  "\<exists>extra. trace (fst (scale_up img w s)) = trace s @ extra \<and>
     set extra \<subseteq> {Containers_run img (''bot_'' @ str_int (randint w)) [] 0}"
  by (simp add: scale_up_def Let_def perform_def)

lemma effects_of_tick_calm:
  fixes w :: world and s :: task_manager and b :: string and c :: container
  assumes calm: "\<forall>e. \<not> raises w e" and lim: "stats_mem_limit w \<noteq> 0"
  defines "h \<equiv> append_sample (sample_of w) (load_history s)"
  shows "\<exists>extra. effects_of_tick b c w s = tick_effects b c w (webhook_url s) h @ extra \<and>
           (\<forall>e \<in> set extra. \<exists>img name. e = Containers_run img name [] 0)"
proof -
  define s3 where "s3 = s\<lparr>load_history := h, cpu_usage_gauge := avg_cpu_of h, mem_usage_gauge := avg_mem_of h,
                  system_cpu_gauge := avg_system_cpu_of h, system_mem_gauge := avg_system_mem_of h,
                  trace := trace s @ tick_effects b c w (webhook_url s) h\<rparr>"
  have t3: "trace s3 = trace s @ tick_effects b c w (webhook_url s) h"
    by (simp add: s3_def)
  have nf: "monitor_tick b c w s =
     (if scales_out w h
      then (case c_image_tags c of [] \<Rightarrow> (s3, Some IndexError) | tag # x \<Rightarrow> scale_up tag w s3)
      else (s3, None))"
    unfolding s3_def h_def by (rule monitor_tick_calm [OF calm lim])
  have "\<exists>extra. trace (fst (monitor_tick b c w s)) = trace s3 @ extra \<and>
           (\<forall>e \<in> set extra. \<exists>img name. e = Containers_run img name [] 0)"
  proof (cases "scales_out w h")
    case False
    with nf show ?thesis by simp
  next
    case True
    show ?thesis
    proof (cases "c_image_tags c")
      case Nil
      with True nf show ?thesis by simp
    next
      case (Cons tag x)
      obtain extra where "trace (fst (scale_up tag w s3)) = trace s3 @ extra"
        and "set extra \<subseteq> {Containers_run tag (''bot_'' @ str_int (randint w)) [] 0}"
        using scale_up_trace by blast
      with True Cons nf show ?thesis by auto
    qed
  qed
  then show ?thesis
    by (auto simp add: effects_of_tick_def t3)
qed

section \<open>The four checks of an iteration\<close>





section \<open>The new limits\<close>

lemma filter_update_announced [simp]: "filter is_update (announced u w m) = []"
  by (simp add: announced_def alert_effects_def split: option.splits post_outcome.splits)





section \<open>What the decisions are evaluated on\<close>

lemma quiet_announced [simp]:
  "filter (\<lambda>e. \<not> is_alert e) (announced u w m) = [Db_insert (strftime w m) m]"
  by (simp add: announced_def alert_effects_def split: option.splits post_outcome.splits)

lemma quiet_effects_of_tick:
  fixes w :: world and s :: task_manager and b :: string and c :: container
  assumes calm: "\<forall>e. \<not> raises w e" and lim: "stats_mem_limit w \<noteq> 0"
    and h: "h = append_sample (sample_of w) (load_history s)"
  shows "\<exists>extra. filter (\<lambda>e. \<not> is_alert e) (effects_of_tick b c w s) =
      [Container_stats (c_name c)] @
      (if avg_mem_of h / of_int (stats_mem_limit w) > 4 / 5 \<or> avg_system_mem_of h > 85
       then [Db_insert (strftime w (Msg_grow_ram b)) (Msg_grow_ram b),
             Container_update_mem (c_name c) (str_int (py_int (of_int (stats_mem_limit w) * (6 / 5))))]
       else []) @
      (if avg_cpu_of h > 50000 \<or> avg_system_cpu_of h > 85
       then [Db_insert (strftime w (Msg_grow_cpu b)) (Msg_grow_cpu b),
             Container_update_cpu (c_name c) (py_int (avg_cpu_of h * (6 / 5)))]
       else []) @
      (if avg_mem_of h / of_int (stats_mem_limit w) > 9 / 10 \<or> avg_cpu_of h > 70000
       then [Db_insert (strftime w (Msg_restart b)) (Msg_restart b), Container_restart (c_name c)]
       else []) @
      (if avg_cpu_of h > 60000 \<or> avg_mem_of h / of_int (stats_mem_limit w) > 17 / 20
       then [Db_insert (strftime w Msg_scale_out) Msg_scale_out]
       else []) @ extra \<and>
      (\<forall>e \<in> set extra. \<exists>img name. e = Containers_run img name [] 0)"
proof -
  obtain extra where e: "effects_of_tick b c w s = tick_effects b c w (webhook_url s) h @ extra"
    and x: "\<forall>e \<in> set extra. \<exists>img name. e = Containers_run img name [] 0"
    using effects_of_tick_calm [OF calm lim, of b c s] h by blast
  from x have "filter (\<lambda>e. \<not> is_alert e) extra = extra"
    by (auto simp add: filter_id_conv)
  then show ?thesis
    using x
    by (simp add: e tick_effects_def grow_memory_effects_def grow_cpu_effects_def restart_effects_def
          scales_out_def)
qed

lemma quiet_member: "\<not> is_alert e \<Longrightarrow> e \<in> set (filter (\<lambda>e. \<not> is_alert e) xs) \<longleftrightarrow> e \<in> set xs"
  by simp






section \<open>One history for all monitors\<close>

lemma restart_in_effects:
  fixes w :: world and s :: task_manager and b :: string and c :: container
  assumes calm: "\<forall>e. \<not> raises w e" and lim: "stats_mem_limit w \<noteq> 0"
    and h: "h = append_sample (sample_of w) (load_history s)"
  shows "(Container_restart (c_name c) \<in> set (effects_of_tick b c w s)) =
            (avg_mem_of h / of_int (stats_mem_limit w) > 9 / 10 \<or> avg_cpu_of h > 70000)"
proof -
  let ?q = "filter (\<lambda>e. \<not> is_alert e) (effects_of_tick b c w s)"
  obtain extra where q: "?q =
      [Container_stats (c_name c)] @
      (if avg_mem_of h / of_int (stats_mem_limit w) > 4 / 5 \<or> avg_system_mem_of h > 85
       then [Db_insert (strftime w (Msg_grow_ram b)) (Msg_grow_ram b),
             Container_update_mem (c_name c) (str_int (py_int (of_int (stats_mem_limit w) * (6 / 5))))]
       else []) @
      (if avg_cpu_of h > 50000 \<or> avg_system_cpu_of h > 85
       then [Db_insert (strftime w (Msg_grow_cpu b)) (Msg_grow_cpu b),
             Container_update_cpu (c_name c) (py_int (avg_cpu_of h * (6 / 5)))]
       else []) @
      (if avg_mem_of h / of_int (stats_mem_limit w) > 9 / 10 \<or> avg_cpu_of h > 70000
       then [Db_insert (strftime w (Msg_restart b)) (Msg_restart b), Container_restart (c_name c)]
       else []) @
      (if avg_cpu_of h > 60000 \<or> avg_mem_of h / of_int (stats_mem_limit w) > 17 / 20
       then [Db_insert (strftime w Msg_scale_out) Msg_scale_out]
       else []) @ extra"
    and x: "\<forall>e \<in> set extra. \<exists>img name. e = Containers_run img name [] 0"
    using quiet_effects_of_tick [OF calm lim h, where b = b and c = c] by blast
  have m: "e \<in> set (effects_of_tick b c w s) \<longleftrightarrow> e \<in> set ?q" if "\<not> is_alert e" for e
    using that by simp
  show ?thesis
    using x by (simp only: m is_alert.simps not_False_eq_True q) auto
qed

text \<open>
  C9, as stated, fails: \<^verbatim>\<open>self.load_history\<close> is one list of the TaskManager, and
  every monitor appends to it and averages over it. An iteration of the monitor of
  \<open>a\<close> puts the sample of \<open>a\<close> into the history, and the next iteration of the
  monitor of \<open>b\<close>, on readings that would leave \<open>b\<close> alone on a fresh history,
  restarts \<open>b\<close>: the mean CPU usage it sees is 500500.
\<close>

theorem tick_of_a_changes_decisions_for_b:
  "load_history manager_ab = [] \<and>
   load_history after_tick_of_a = [(1000000, 50, 10, 10)] \<and>
   Container_restart ''b'' \<notin> set (effects_of_tick ''b'' bot_b world0 manager_ab) \<and>
   Container_restart ''b'' \<in> set (effects_of_tick ''b'' bot_b world0 after_tick_of_a)"
proof -
  have calm: "\<forall>e. \<not> raises world0 e" "stats_mem_limit world0 \<noteq> 0" "stats_mem_limit world0 = 100"
    "c_name bot_b = ''b''"
    by (simp_all add: world0_def bot_b_def)
  have h0: "load_history manager_ab = []"
    by (simp add: manager_ab_def TaskManager_init_def)
  have h1: "load_history after_tick_of_a = [(1000000, 50, 10, 10)]"
    by (simp add: after_tick_of_a_def monitor_tick_history h0 world_heavy_def world0_def
          append_sample_def sample_of_def)
  have s0: "[(1000, 50, 10, 10)] = append_sample (sample_of world0) (load_history manager_ab)"
    by (simp add: h0 append_sample_def sample_of_def world0_def)
  have s1: "[(1000000, 50, 10, 10), (1000, 50, 10, 10)] =
      append_sample (sample_of world0) (load_history after_tick_of_a)"
    by (simp add: h1 append_sample_def sample_of_def world0_def)
  have "Container_restart ''b'' \<notin> set (effects_of_tick ''b'' bot_b world0 manager_ab)"
    using restart_in_effects [OF calm(1,2) s0, where b = "''b''" and c = bot_b]
    by (simp add: calm(3,4) avg_mem_of_def avg_cpu_of_def)
  moreover have "Container_restart ''b'' \<in> set (effects_of_tick ''b'' bot_b world0 after_tick_of_a)"
    using restart_in_effects [OF calm(1,2) s1, where b = "''b''" and c = bot_b]
    by (simp add: calm(3,4) avg_mem_of_def avg_cpu_of_def)
  ultimately show ?thesis
    using h0 h1 by blast
qed

text \<open>
  C9, amended. The load history belongs to the TaskManager and is shared by the
  monitors of all its containers: an iteration for any container, whatever its name,
  appends its sample to that one list, and an iteration for another container that
  follows appends to the result and takes its smoothed values over it, samples of the
  first container included.
\<close>

theorem load_history_is_shared_by_all_monitors:
  assumes "\<not> raises wa (Container_stats (c_name ca))" and "\<not> raises wb (Container_stats (c_name cb))"
  shows "load_history (fst (monitor_tick a ca wa s)) = append_sample (sample_of wa) (load_history s) \<and>
         load_history (fst (monitor_tick b cb wb (fst (monitor_tick a ca wa s)))) =
           append_sample (sample_of wb) (append_sample (sample_of wa) (load_history s)) \<and>
         cpu_usage_gauge (fst (monitor_tick b cb wb (fst (monitor_tick a ca wa s)))) =
           avg_cpu_of (append_sample (sample_of wb) (append_sample (sample_of wa) (load_history s))) \<and>
         mem_usage_gauge (fst (monitor_tick b cb wb (fst (monitor_tick a ca wa s)))) =
           avg_mem_of (append_sample (sample_of wb) (append_sample (sample_of wa) (load_history s)))"
proof -
  let ?sa = "fst (monitor_tick a ca wa s)"
  let ?sb = "fst (monitor_tick b cb wb ?sa)"
  have a: "load_history ?sa = append_sample (sample_of wa) (load_history s)"
    using assms(1) by (simp add: monitor_tick_history)
  have m: "measured ?sb = measured (?sa\<lparr>load_history := append_sample (sample_of wb) (load_history ?sa),
       cpu_usage_gauge := avg_cpu_of (append_sample (sample_of wb) (load_history ?sa)),
       mem_usage_gauge := avg_mem_of (append_sample (sample_of wb) (load_history ?sa)),
       system_cpu_gauge := avg_system_cpu_of (append_sample (sample_of wb) (load_history ?sa)),
       system_mem_gauge := avg_system_mem_of (append_sample (sample_of wb) (load_history ?sa))\<rparr>)"
    using assms(2) by (simp add: monitor_tick_measured Let_def)
  have "load_history ?sb = load_history (measured ?sb)" "cpu_usage_gauge ?sb = cpu_usage_gauge (measured ?sb)"
    "mem_usage_gauge ?sb = mem_usage_gauge (measured ?sb)"
    by simp_all
  then have "load_history ?sb = append_sample (sample_of wb) (load_history ?sa)"
    "cpu_usage_gauge ?sb = avg_cpu_of (append_sample (sample_of wb) (load_history ?sa))"
    "mem_usage_gauge ?sb = avg_mem_of (append_sample (sample_of wb) (load_history ?sa))"
    by (simp_all only: m) (simp_all add: measured_def)
  with a show ?thesis by simp
qed

theorem load_history_is_shared_by_all_monitors_witness:
  "\<not> raises world_heavy (Container_stats (c_name bot_a)) \<and>
   \<not> raises world0 (Container_stats (c_name bot_b)) \<and>
   load_history (fst (monitor_tick ''a'' bot_a world_heavy manager_ab)) = [(1000000, 50, 10, 10)] \<and>
   load_history (fst (monitor_tick ''b'' bot_b world0 (fst (monitor_tick ''a'' bot_a world_heavy manager_ab)))) =
     [(1000000, 50, 10, 10), (1000, 50, 10, 10)] \<and>
   cpu_usage_gauge (fst (monitor_tick ''b'' bot_b world0 (fst (monitor_tick ''a'' bot_a world_heavy manager_ab)))) =
     500500"
proof -
  have r: "\<not> raises world_heavy (Container_stats (c_name bot_a))" "\<not> raises world0 (Container_stats (c_name bot_b))"
    by (simp_all add: world_heavy_def world0_def)
  have h: "append_sample (sample_of world_heavy) (load_history manager_ab) = [(1000000, 50, 10, 10)]"
    "append_sample (sample_of world0) [(1000000, 50, 10, 10)] = [(1000000, 50, 10, 10), (1000, 50, 10, 10)]"
    "avg_cpu_of [(1000000, 50, 10, 10), (1000, 50, 10, 10)] = 500500"
    by (simp_all add: manager_ab_def TaskManager_init_def append_sample_def sample_of_def world_heavy_def
          world0_def avg_cpu_of_def)
  from load_history_is_shared_by_all_monitors [OF r, of "''a''" manager_ab "''b''"] r show ?thesis
    by (simp add: h)
qed

section \<open>Scale-out and capacity\<close>


















section \<open>The order of the task queue\<close>

lemma parent_less: "0 < i \<Longrightarrow> parent_of i < i"
  unfolding parent_of_def by arith

lemma parent_eq [simp]: "(i - Suc 0) div 2 = parent_of i"
  by (simp add: parent_of_def)

lemma heap_root_least:
  assumes "heap_inv key h" and "i < length h"
  shows "key (h ! 0) \<le> key (h ! i)"
  using assms(2)
proof (induction i rule: less_induct)
  case (less i)
  show ?case
  proof (cases "i = 0")
    case True
    then show ?thesis by simp
  next
    case False
    then have "parent_of i < i" by (simp add: parent_less)
    moreover have "key (h ! parent_of i) \<le> key (h ! i)"
      using assms(1) False less.prems by (simp add: heap_inv_def)
    ultimately show ?thesis
      using less.IH [of "parent_of i"] less.prems by simp
  qed
qed

lemma siftdown_length [simp]: "length (siftdown key h s p x) = length h"
  by (induction key h s p x rule: siftdown.induct) (subst siftdown.simps, simp add: Let_def)

lemma siftdown_mset:
  "p < length h \<Longrightarrow> mset (siftdown key h s p x) = mset (h[p := x])"
proof (induction key h s p x rule: siftdown.induct)
  case (1 key heap startpos pos newitem)
  let ?pp = "parent_of pos"
  show ?case
  proof (cases "pos > startpos \<and> key newitem < key (heap ! ?pp)")
    case True
    then have pp: "?pp < pos" by (simp add: parent_less)
    then have ppl: "?pp < length heap" using "1.prems" by simp
    have "mset (siftdown key heap startpos pos newitem) =
          mset (siftdown key (heap[pos := heap ! ?pp]) startpos ?pp newitem)"
      using True by (subst siftdown.simps) (simp add: Let_def)
    also have "\<dots> = mset ((heap[pos := heap ! ?pp])[?pp := newitem])"
      using "1.IH" [of "(pos - 1) div 2" "heap ! ((pos - 1) div 2)"] True ppl by simp
    also have "\<dots> = mset (heap[pos := newitem])"
    proof -
      let ?a = "heap[pos := newitem]"
      have "(heap[pos := heap ! ?pp])[?pp := newitem] = ?a[pos := ?a ! ?pp, ?pp := ?a ! pos]"
        using pp "1.prems" ppl by (simp add: list_update_swap)
      then show ?thesis
        using mset_swap [of ?pp ?a pos] ppl "1.prems" by simp
    qed
    finally show ?thesis .
  next
    case False
    then show ?thesis
      by (subst siftdown.simps) (auto simp add: Let_def)
  qed
qed

lemma heap_but_up_step:
  fixes key :: "'a \<Rightarrow> 'k::linorder"
  assumes pos: "0 < pos" "pos < length heap"
    and lt: "key x < key (heap ! parent_of pos)"
    and inv: "heap_but_up key (heap[pos := x]) pos"
  shows "heap_but_up key ((heap[pos := heap ! parent_of pos])[parent_of pos := x]) (parent_of pos)"
proof -
  define pp where "pp = parent_of pos"
  define A where "A = heap[pos := x]"
  define B where "B = (heap[pos := heap ! pp])[pp := x]"
  define P where "P = heap ! pp"
  have pp: "pp < pos" unfolding pp_def using pos(1) by (rule parent_less)
  have n: "length A = length heap" "length B = length heap" by (simp_all add: A_def B_def)
  from inv have inv1: "\<forall>i. 0 < i \<and> i < length heap \<and> i \<noteq> pos \<longrightarrow> key (A ! parent_of i) \<le> key (A ! i)"
    and inv2: "\<forall>i. 0 < i \<and> i < length heap \<and> parent_of i = pos \<and> 0 < pos \<longrightarrow> key (A ! pp) \<le> key (A ! i)"
    by (simp_all add: heap_but_up_def A_def pp_def)
  have E: "key (A ! parent_of i) \<le> key (A ! i)" if "0 < i" "i < length heap" "i \<noteq> pos" for i
    using inv1 that by blast
  have G: "key (A ! pp) \<le> key (A ! i)" if "0 < i" "i < length heap" "parent_of i = pos" for i
    using inv2 that pos(1) by blast
  have App: "A ! pp = P" using pp by (simp add: A_def P_def)
  have Bpos: "B ! pos = P" using pp pos by (simp add: B_def P_def)
  have Bpp: "B ! pp = x" using pp pos by (simp add: B_def)
  have Bo: "B ! i = A ! i" if "i \<noteq> pos" "i \<noteq> pp" for i
    using that by (simp add: A_def B_def)
  have lt': "key x < key P" using lt by (simp add: P_def pp_def)
  have E': "key (B ! parent_of i) \<le> key (B ! i)" if i: "0 < i" "i < length heap" "i \<noteq> pp" for i
  proof (cases "i = pos")
    case True
    then show ?thesis using lt' by (simp add: Bpos Bpp flip: pp_def)
  next
    case False
    note ne = False
    show ?thesis
    proof (cases "parent_of i = pp")
      case True
      have "key P \<le> key (A ! i)"
        using E [OF i(1,2) ne] True by (simp add: App)
      then show ?thesis
        using lt' True by (simp add: Bpp Bo [OF ne i(3)])
    next
      case False
      note np = False
      show ?thesis
      proof (cases "parent_of i = pos")
        case True
        have "key P \<le> key (A ! i)"
          using G [OF i(1,2) True] by (simp add: App)
        then show ?thesis
          by (simp add: True Bpos Bo [OF ne i(3)])
      next
        case False
        then show ?thesis
          using E [OF i(1,2) ne] by (simp add: Bo [OF ne i(3)] Bo [OF False np])
      qed
    qed
  qed
  have G': "key (B ! parent_of pp) \<le> key (B ! i)"
    if i: "0 < i" "i < length heap" "parent_of i = pp" "0 < pp" for i
  proof -
    have gp: "parent_of pp < pp" using i(4) by (rule parent_less)
    then have "parent_of pp \<noteq> pos" "parent_of pp \<noteq> pp" using pp by simp_all
    then have Bg: "B ! parent_of pp = A ! parent_of pp" by (rule Bo)
    have "pp < length heap" using pp pos by simp
    then have top: "key (A ! parent_of pp) \<le> key P"
      using E [of pp] i(4) pp by (simp add: App)
    show ?thesis
    proof (cases "i = pos")
      case True
      then show ?thesis using top by (simp only: Bg Bpos)
    next
      case False
      have ipp: "i \<noteq> pp" using i(1,3) parent_less [of i] by simp
      have "key P \<le> key (A ! i)"
        using E [OF i(1,2) False] i(3) by (simp add: App)
      with top have "key (A ! parent_of pp) \<le> key (A ! i)" by (rule order_trans)
      then show ?thesis
        by (simp only: Bg Bo [OF False ipp])
    qed
  qed
  have "heap_but_up key B pp"
    unfolding heap_but_up_def using E' G' by (simp only: n) blast
  then show ?thesis
    by (simp add: B_def pp_def)
qed

lemma heap_but_up_done:
  fixes key :: "'a \<Rightarrow> 'k::linorder"
  assumes inv: "heap_but_up key h pos"
    and ok: "pos = 0 \<or> key (h ! parent_of pos) \<le> key (h ! pos)"
  shows "heap_inv key h"
  unfolding heap_inv_def
proof (intro allI impI)
  fix i assume i: "0 < i \<and> i < length h"
  show "key (h ! parent_of i) \<le> key (h ! i)"
  proof (cases "i = pos")
    case True
    then show ?thesis using ok i by auto
  next
    case False
    then show ?thesis using inv i by (simp add: heap_but_up_def)
  qed
qed

lemma siftdown_heap:
  fixes key :: "'a \<Rightarrow> 'k::linorder"
  shows "s = 0 \<Longrightarrow> p < length h \<Longrightarrow> heap_but_up key (h[p := x]) p \<Longrightarrow>
    heap_inv key (siftdown key h s p x)"
proof (induction key h s p x rule: siftdown.induct)
  case (1 key heap startpos pos newitem)
  let ?pp = "parent_of pos"
  show ?case
  proof (cases "pos > startpos \<and> key newitem < key (heap ! ?pp)")
    case True
    then have p0: "0 < pos" by simp
    have pp: "?pp < pos" using p0 by (rule parent_less)
    have step: "heap_but_up key ((heap[pos := heap ! ?pp])[?pp := newitem]) ?pp"
      using heap_but_up_step [OF p0 "1.prems"(2) _ "1.prems"(3)] True by simp
    have "siftdown key heap startpos pos newitem =
          siftdown key (heap[pos := heap ! ?pp]) startpos ?pp newitem"
      using True by (subst siftdown.simps) (simp add: Let_def)
    moreover have "heap_inv key (siftdown key (heap[pos := heap ! ?pp]) startpos ?pp newitem)"
      using "1.IH" [of "(pos - 1) div 2" "heap ! ((pos - 1) div 2)"] True "1.prems" pp step by simp
    ultimately show ?thesis by simp
  next
    case False
    then have r: "siftdown key heap startpos pos newitem = heap[pos := newitem]"
      by (subst siftdown.simps) (auto simp add: Let_def)
    have "pos = 0 \<or> key ((heap[pos := newitem]) ! ?pp) \<le> key ((heap[pos := newitem]) ! pos)"
    proof (cases "pos = 0")
      case True
      then show ?thesis by simp
    next
      case False
      then have "?pp < pos" by (simp add: parent_less)
      then show ?thesis
        using \<open>\<not> (startpos < pos \<and> key newitem < key (heap ! ?pp))\<close> "1.prems" False by simp
    qed
    then show ?thesis
      unfolding r using "1.prems"(3) by (rule heap_but_up_done [rotated])
  qed
qed

lemma heappush_mset: "mset (heappush key h x) = mset h + {#x#}"
  by (simp add: heappush_def siftdown_mset)

lemma heappush_heap:
  fixes key :: "'a \<Rightarrow> 'k::linorder"
  assumes "heap_inv key h"
  shows "heap_inv key (heappush key h x)"
proof -
  have "heap_but_up key (h @ [x]) (length h)"
    unfolding heap_but_up_def
  proof (intro conjI allI impI)
    fix i assume i: "0 < i \<and> i < length (h @ [x]) \<and> i \<noteq> length h"
    then have il: "i < length h" by simp
    then have "parent_of i < length h" using parent_less [of i] i by simp
    then show "key ((h @ [x]) ! parent_of i) \<le> key ((h @ [x]) ! i)"
      using assms i il by (simp add: nth_append heap_inv_def)
  next
    fix i assume i: "0 < i \<and> i < length (h @ [x]) \<and> parent_of i = length h \<and> 0 < length h"
    then have "length h < i" using parent_less [of i] by simp
    with i show "key ((h @ [x]) ! parent_of (length h)) \<le> key ((h @ [x]) ! i)" by simp
  qed
  then have "heap_but_up key ((h @ [x])[length h := x]) (length h)" by simp
  then show ?thesis
    unfolding heappush_def by (intro siftdown_heap) simp_all
qed

lemma parent_of_child: "parent_of i = p \<and> 0 < i \<longleftrightarrow> i = 2 * p + 1 \<or> i = 2 * p + 2"
  unfolding parent_of_def by arith

lemma heap_hole_step:
  fixes key :: "'a \<Rightarrow> 'k::linorder"
  assumes hole: "heap_hole key B pos"
    and c: "parent_of c = pos" "0 < c" "c < length B"
    and least: "\<forall>i. 0 < i \<and> i < length B \<and> parent_of i = pos \<longrightarrow> key (B ! c) \<le> key (B ! i)"
  shows "heap_hole key (B[pos := B ! c]) c"
proof -
  define B' where "B' = B[pos := B ! c]"
  have pc: "pos < c" using c(1,2) parent_less [of c] by simp
  have n: "length B' = length B" by (simp add: B'_def)
  from hole have h1: "\<forall>i. 0 < i \<and> i < length B \<and> i \<noteq> pos \<and> parent_of i \<noteq> pos \<longrightarrow> key (B ! parent_of i) \<le> key (B ! i)"
    and h2: "\<forall>i. 0 < i \<and> i < length B \<and> parent_of i = pos \<and> 0 < pos \<longrightarrow> key (B ! parent_of pos) \<le> key (B ! i)"
    by (simp_all add: heap_hole_def)
  have Bpos: "B' ! pos = B ! c" using pc c(3) by (simp add: B'_def)
  have Bo: "B' ! i = B ! i" if "i \<noteq> pos" for i using that by (simp add: B'_def)
  have 1: "key (B' ! parent_of i) \<le> key (B' ! i)"
    if i: "0 < i" "i < length B" "i \<noteq> c" "parent_of i \<noteq> c" for i
  proof (cases "i = pos")
    case True
    then have p0: "0 < pos" using i(1) by simp
    then have "parent_of pos \<noteq> pos" using parent_less [of pos] by simp
    then have "B' ! parent_of pos = B ! parent_of pos" by (rule Bo)
    moreover have "key (B ! parent_of pos) \<le> key (B ! c)"
      using h2 c p0 by blast
    ultimately show ?thesis using True by (simp add: Bpos)
  next
    case False
    note ne = False
    show ?thesis
    proof (cases "parent_of i = pos")
      case True
      have "key (B ! c) \<le> key (B ! i)" using least i True by blast
      then show ?thesis by (simp add: True Bpos Bo [OF ne])
    next
      case False
      have "key (B ! parent_of i) \<le> key (B ! i)" using h1 i ne False by blast
      then show ?thesis by (simp add: Bo [OF ne] Bo [OF False])
    qed
  qed
  have 2: "key (B' ! parent_of c) \<le> key (B' ! i)"
    if i: "0 < i" "i < length B" "parent_of i = c" for i
  proof -
    have "c < i" using i(1,3) parent_less [of i] by simp
    then have ne: "i \<noteq> pos" using pc by simp
    have "parent_of i \<noteq> pos" using i(3) pc by simp
    then have "key (B ! parent_of i) \<le> key (B ! i)" using h1 i ne by blast
    then show ?thesis by (simp add: c(1) Bpos Bo [OF ne] i(3))
  qed
  have "heap_hole key B' c"
    unfolding heap_hole_def using 1 2 by (simp only: n) blast
  then show ?thesis by (simp add: B'_def)
qed

lemma hole_mset_step:
  assumes "pos < c" "c < length B"
  shows "mset ((B[pos := B ! c])[c := x]) = mset (B[pos := x])"
proof -
  let ?A = "B[pos := x]"
  have "(B[pos := B ! c])[c := x] = ?A[pos := ?A ! c, c := ?A ! pos]"
    using assms by simp
  then show ?thesis
    using mset_swap [of c ?A pos] assms by simp
qed

lemma siftup_loop_correct:
  fixes key :: "'a \<Rightarrow> 'k::linorder"
  shows "e = length B \<Longrightarrow> pos < length B \<Longrightarrow> heap_hole key B pos \<Longrightarrow>
    (case siftup_loop key B e pos of (B', p') \<Rightarrow>
       heap_hole key B' p' \<and> p' < length B \<and> length B \<le> 2 * p' + 1 \<and> length B' = length B \<and>
       mset (B'[p' := x]) = mset (B[pos := x]))"
proof (induction key B e pos rule: siftup_loop.induct)
  case (1 key heap endpos pos)
  show ?case
  proof (cases "2 * pos + 1 < endpos")
    case False
    then have "siftup_loop key heap endpos pos = (heap, pos)"
      by (subst siftup_loop.simps) (simp add: Let_def)
    with False "1.prems" show ?thesis by simp
  next
    case True
    define c where "c = (if 2 * pos + 1 + 1 < endpos \<and> \<not> key (heap ! (2 * pos + 1)) < key (heap ! (2 * pos + 1 + 1))
                           then 2 * pos + 1 + 1 else 2 * pos + 1)"
    have unf: "siftup_loop key heap endpos pos = siftup_loop key (heap[pos := heap ! c]) endpos c"
      using True by (subst siftup_loop.simps) (simp add: Let_def c_def)
    have cc: "c = 2 * pos + 1 \<or> c = 2 * pos + 2" by (simp add: c_def)
    then have c1: "parent_of c = pos" "0 < c" using parent_of_child [of c pos] by simp_all
    have c2: "c < length heap" using True "1.prems"(1) by (auto simp add: c_def)
    have pc: "pos < c" using cc by auto
    have least: "\<forall>i. 0 < i \<and> i < length heap \<and> parent_of i = pos \<longrightarrow> key (heap ! c) \<le> key (heap ! i)"
    proof (intro allI impI)
      fix i assume i: "0 < i \<and> i < length heap \<and> parent_of i = pos"
      then have "i = 2 * pos + 1 \<or> i = 2 * pos + 2" using parent_of_child [of i pos] by simp
      then show "key (heap ! c) \<le> key (heap ! i)"
        using i "1.prems"(1) by (auto simp add: c_def)
    qed
    have step: "heap_hole key (heap[pos := heap ! c]) c"
      using "1.prems"(3) c1 c2 least by (rule heap_hole_step)
    have IH: "case siftup_loop key (heap[pos := heap ! c]) endpos c of (B', p') \<Rightarrow>
       heap_hole key B' p' \<and> p' < length (heap[pos := heap ! c]) \<and> length (heap[pos := heap ! c]) \<le> 2 * p' + 1 \<and>
       length B' = length (heap[pos := heap ! c]) \<and>
       mset (B'[p' := x]) = mset ((heap[pos := heap ! c])[c := x])"
      using "1.IH" [OF refl True refl refl] "1.prems"(1) c2 step
      by (simp add: c_def)
    show ?thesis
      using IH by (simp add: unf hole_mset_step [OF pc c2] split: prod.splits)
  qed
qed

lemma heap_hole_leaf:
  fixes key :: "'a \<Rightarrow> 'k::linorder"
  assumes hole: "heap_hole key B p" and leaf: "length B \<le> 2 * p + 1" and p: "p < length B"
  shows "heap_but_up key (B[p := x]) p"
proof -
  have nochild: "parent_of i \<noteq> p" if "0 < i" "i < length B" for i
    using that leaf parent_of_child [of i p] by auto
  from hole have h1: "\<forall>i. 0 < i \<and> i < length B \<and> i \<noteq> p \<and> parent_of i \<noteq> p \<longrightarrow> key (B ! parent_of i) \<le> key (B ! i)"
    by (simp add: heap_hole_def)
  have "key ((B[p := x]) ! parent_of i) \<le> key ((B[p := x]) ! i)"
    if "0 < i" "i < length B" "i \<noteq> p" for i
    using h1 that nochild [of i] by simp
  then have 1: "\<forall>i. 0 < i \<and> i < length (B[p := x]) \<and> i \<noteq> p \<longrightarrow>
      key ((B[p := x]) ! parent_of i) \<le> key ((B[p := x]) ! i)"
    by simp
  have 2: "\<forall>i. 0 < i \<and> i < length (B[p := x]) \<and> parent_of i = p \<and> 0 < p \<longrightarrow>
      key ((B[p := x]) ! parent_of p) \<le> key ((B[p := x]) ! i)"
    using nochild by auto
  show ?thesis
    unfolding heap_but_up_def using 1 2 by blast
qed

lemma siftup_correct:
  fixes key :: "'a \<Rightarrow> 'k::linorder"
  assumes hole: "heap_hole key B 0" and ne: "B \<noteq> []"
  shows "heap_inv key (siftup key B 0) \<and> mset (siftup key B 0) = mset B"
proof -
  obtain B' p' where l: "siftup_loop key B (length B) 0 = (B', p')"
    by (cases "siftup_loop key B (length B) 0")
  have len: "0 < length B" using ne by simp
  from siftup_loop_correct [OF refl len hole, of "B ! 0"] l
  have h: "heap_hole key B' p'" and p: "p' < length B" and leaf: "length B \<le> 2 * p' + 1"
    and n: "length B' = length B" and m: "mset (B'[p' := B ! 0]) = mset (B[0 := B ! 0])"
    by simp_all
  have s: "siftup key B 0 = siftdown key B' 0 p' (B ! 0)"
    by (simp add: siftup_def l)
  have "heap_but_up key (B'[p' := B ! 0]) p'"
    using h leaf p n by (intro heap_hole_leaf) simp_all
  then have "heap_inv key (siftdown key B' 0 p' (B ! 0))"
    using p n by (intro siftdown_heap) simp_all
  moreover have "mset (siftdown key B' 0 p' (B ! 0)) = mset B"
    using p n m by (simp add: siftdown_mset)
  ultimately show ?thesis by (simp add: s)
qed

lemma heappop_correct:
  fixes key :: "'a \<Rightarrow> 'k::linorder"
  assumes inv: "heap_inv key h" and ne: "h \<noteq> []"
  shows "\<exists>m h'. heappop key h = Some (m, h') \<and> m \<in> set h \<and> (\<forall>x \<in> set h. key m \<le> key x) \<and>
           mset h' = mset h - {#m#} \<and> heap_inv key h'"
proof -
  have least: "\<forall>x \<in> set h. key (h ! 0) \<le> key x"
    using heap_root_least [OF inv] by (auto simp add: in_set_conv_nth)
  have root: "h ! 0 \<in> set h" using ne by simp
  show ?thesis
  proof (cases "butlast h = []")
    case True
    then have h: "h = [last h]" using ne by (metis append_butlast_last_id append_Nil)
    then have "h ! 0 = last h" by (metis nth_Cons_0)
    moreover have "mset (butlast h) = mset h - {#last h#}"
      using h True by (metis add_mset_remove_trivial mset.simps(1) mset.simps(2))
    ultimately show ?thesis
      using least root ne True by (simp add: heappop_def heap_inv_def)
  next
    case False
    define h1 where "h1 = butlast h"
    define B where "B = h1[0 := last h]"
    have hh: "h = h1 @ [last h]" using ne by (simp add: h1_def)
    have h1ne: "h1 \<noteq> []" using False by (simp add: h1_def)
    have h10: "h1 ! 0 = h ! 0" using h1ne by (subst hh) (simp add: nth_append)
    have pop: "heappop key h = Some (h ! 0, siftup key B 0)"
      using ne False h10 by (simp add: heappop_def Let_def B_def h1_def)
    have "heap_hole key B 0"
      unfolding heap_hole_def
    proof (intro conjI allI impI)
      fix i assume i: "0 < i \<and> i < length B \<and> i \<noteq> 0 \<and> parent_of i \<noteq> 0"
      then have il: "i < length h1" by (simp add: B_def)
      then have pl: "parent_of i < length h1" using parent_less [of i] i by simp
      have "key (h ! parent_of i) \<le> key (h ! i)"
        using inv i il hh by (simp add: heap_inv_def h1_def)
      moreover have "h ! i = h1 ! i" "h ! parent_of i = h1 ! parent_of i"
        using il pl by (simp_all add: h1_def nth_butlast)
      ultimately show "key (B ! parent_of i) \<le> key (B ! i)"
        using i by (simp add: B_def)
    next
      fix i assume "0 < i \<and> i < length B \<and> parent_of i = 0 \<and> (0::nat) < 0"
      then show "key (B ! parent_of 0) \<le> key (B ! i)" by simp
    qed
    moreover have "B \<noteq> []" using h1ne by (simp add: B_def)
    ultimately have s: "heap_inv key (siftup key B 0)" "mset (siftup key B 0) = mset B"
      using siftup_correct by blast+
    have "mset B = mset h - {#h ! 0#}"
    proof -
      obtain a t where at: "h1 = a # t" using h1ne by (cases h1) auto
      then have "h ! 0 = a" using h10 by simp
      moreover have "mset h = mset h1 + {#last h#}" by (subst hh) simp
      ultimately show ?thesis by (simp add: B_def at)
    qed
    then show ?thesis
      using pop s least root by simp
  qed
qed

lemma queue_ok_empty: "queue_ok empty_queue"
  by (simp add: queue_ok_def empty_queue_def heap_inv_def)

lemma distinct_map_mset:
  assumes "mset xs = mset ys"
  shows "distinct (map f xs) = distinct (map f ys)"
proof -
  have "mset (map f xs) = mset (map f ys)" using assms by simp
  then show ?thesis by (rule mset_eq_imp_distinct_iff)
qed

lemma queue_ok_push:
  assumes "queue_ok q"
  shows "queue_ok (push p t q)"
proof -
  let ?h = "heappush entry_key (queue q) (p, pushed q, t)"
  have m: "mset ?h = mset (queue q @ [(p, pushed q, t)])"
    by (simp add: heappush_mset)
  then have s: "set ?h = set (queue q @ [(p, pushed q, t)])"
    by (rule mset_eq_setD)
  have "distinct (map (\<lambda>e. fst (snd e)) (queue q @ [(p, pushed q, t)]))"
    using assms by (auto simp add: queue_ok_def)
  moreover have "distinct (map (\<lambda>e. fst (snd e)) ?h) =
      distinct (map (\<lambda>e. fst (snd e)) (queue q @ [(p, pushed q, t)]))"
    using m by (rule distinct_map_mset)
  ultimately have "distinct (map (\<lambda>e. fst (snd e)) ?h)" by blast
  moreover have "\<forall>e \<in> set ?h. fst (snd e) < Suc (pushed q)"
    using assms by (auto simp add: s queue_ok_def less_Suc_eq)
  moreover have "heap_inv entry_key ?h"
    using assms by (simp add: queue_ok_def heappush_heap)
  ultimately show ?thesis
    by (simp add: queue_ok_def push_def)
qed

lemma queue_ok_pop:
  assumes "queue_ok q" and "pop q = Some (e, q')"
  shows "queue_ok q'"
proof (cases "queue q = []")
  case True
  with assms(2) show ?thesis by (simp add: pop_def heappop_def)
next
  case False
  from assms(1) have inv: "heap_inv entry_key (queue q)" by (simp add: queue_ok_def)
  from heappop_correct [OF inv False] assms(2)
  have q': "q' = q\<lparr>queue := queue q'\<rparr>" and m: "mset (queue q') = mset (queue q) - {#e#}"
    and h: "heap_inv entry_key (queue q')" and e: "e \<in> set (queue q)"
    by (auto simp add: pop_def)
  have sub: "set (queue q') \<subseteq> set (queue q)"
    using m by (metis in_diffD set_mset_mset subsetI)
  have "mset (queue q) = mset (e # queue q')"
    using m e by simp
  then have "distinct (map (\<lambda>e. fst (snd e)) (queue q)) =
      distinct (map (\<lambda>e. fst (snd e)) (e # queue q'))"
    by (rule distinct_map_mset)
  moreover have "distinct (map (\<lambda>e. fst (snd e)) (queue q))"
    using assms(1) by (simp add: queue_ok_def)
  ultimately have "distinct (map (\<lambda>e. fst (snd e)) (e # queue q'))" by blast
  then have "distinct (map (\<lambda>e. fst (snd e)) (queue q'))" by simp
  moreover have "pushed q' = pushed q" by (subst q') simp
  ultimately show ?thesis
    using h sub assms(1) by (auto simp add: queue_ok_def)
qed

lemma run_queue_ok:
  "queue_ok q \<Longrightarrow> run_queue ops q = Some q' \<Longrightarrow> queue_ok q'"
proof (induction ops q rule: run_queue.induct)
  case (1 q)
  then show ?case by simp
next
  case (2 priority task ops q)
  then show ?case by (simp add: queue_ok_push)
next
  case (3 ops q)
  then show ?case
    by (auto split: option.splits dest: queue_ok_pop)
qed

text \<open>
  The tie-break is the enqueue number and nothing else: \<^verbatim>\<open>heapq\<close> on entries that
  compare by priority alone is not first-in first-out. Of four tasks pushed with
  priority 2 as x, y, z, u, the first pop returns x and the second returns z.
\<close>

lemma heap_without_enqueue_order_is_not_fifo:
  "heappush fst (heappush fst (heappush fst (heappush fst [] (2::int, ''x'')) (2, ''y'')) (2, ''z'')) (2, ''u'')
     = [(2, ''x''), (2, ''y''), (2, ''z''), (2, ''u'')] \<and>
   heappop fst [(2::int, ''x''), (2, ''y''), (2, ''z''), (2, ''u'')]
     = Some ((2, ''x''), [(2, ''z''), (2, ''y''), (2, ''u'')]) \<and>
   heappop fst [(2::int, ''z''), (2, ''y''), (2, ''u'')] = Some ((2, ''z''), [(2, ''y''), (2, ''u'')])"
  by (simp add: heappush_def heappop_def siftup_def siftup_loop.simps siftdown.simps Let_def)

text \<open>
  C10. On every queue reached by pushes and pops from the empty queue, a pop returns
  an entry of the queue whose priority is the lowest in it and, among the entries with
  that priority, the one pushed first: its enqueue number is the smallest, enqueue
  numbers are distinct, each push takes the next number, and every entry in the queue
  has a number below it. The pop removes exactly that entry; a push adds exactly the new
  one; on an empty queue a pop waits. The witness runs the spec's example: after
  pushing the priorities 5, 1, 3 three pops return 1, 3, 5, and with equal priorities
  the tasks come out in insertion order.
\<close>

theorem pop_lowest_priority_then_fifo:
  assumes "run_queue ops empty_queue = Some q"
  shows "(queue q = [] \<longrightarrow> pop q = None) \<and>
         (queue q \<noteq> [] \<longrightarrow>
            (\<exists>e q'. pop q = Some (e, q') \<and> e \<in> set (queue q) \<and>
               (\<forall>x \<in> set (queue q). fst e < fst x \<or> (fst e = fst x \<and> fst (snd e) \<le> fst (snd x))) \<and>
               (\<forall>x \<in> set (queue q). fst (snd x) = fst (snd e) \<longrightarrow> x = e) \<and>
               mset (queue q') = mset (queue q) - {#e#} \<and> pushed q' = pushed q)) \<and>
         (\<forall>x \<in> set (queue q). fst (snd x) < pushed q) \<and>
         mset (queue (push p t q)) = mset (queue q) + {#(p, pushed q, t)#} \<and>
         pushed (push p t q) = Suc (pushed q)"
proof -
  have ok: "queue_ok q"
    using queue_ok_empty assms by (rule run_queue_ok)
  then have inv: "heap_inv entry_key (queue q)"
    and bound: "\<forall>x \<in> set (queue q). fst (snd x) < pushed q"
    and dist: "distinct (map (\<lambda>e. fst (snd e)) (queue q))"
    by (simp_all add: queue_ok_def)
  have 1: "queue q = [] \<longrightarrow> pop q = None"
    by (simp add: pop_def heappop_def)
  have 2: "\<exists>e q'. pop q = Some (e, q') \<and> e \<in> set (queue q) \<and>
               (\<forall>x \<in> set (queue q). fst e < fst x \<or> (fst e = fst x \<and> fst (snd e) \<le> fst (snd x))) \<and>
               (\<forall>x \<in> set (queue q). fst (snd x) = fst (snd e) \<longrightarrow> x = e) \<and>
               mset (queue q') = mset (queue q) - {#e#} \<and> pushed q' = pushed q"
    if ne: "queue q \<noteq> []"
  proof -
    from heappop_correct [OF inv ne]
    obtain m h' where pop: "heappop entry_key (queue q) = Some (m, h')" and m: "m \<in> set (queue q)"
      and least: "\<forall>x \<in> set (queue q). entry_key m \<le> entry_key x"
      and ms: "mset h' = mset (queue q) - {#m#}"
      by blast
    have a: "pop q = Some (m, q\<lparr>queue := h'\<rparr>)"
      by (simp add: pop_def pop)
    have b: "\<forall>x \<in> set (queue q). fst m < fst x \<or> (fst m = fst x \<and> fst (snd m) \<le> fst (snd x))"
      using least by (auto simp add: entry_key_def less_eq_prod_def)
    have "inj_on (\<lambda>e. fst (snd e)) (set (queue q))"
      using dist by (simp add: distinct_map)
    then have c: "\<forall>x \<in> set (queue q). fst (snd x) = fst (snd m) \<longrightarrow> x = m"
      using m by (auto dest: inj_onD)
    show ?thesis
      using a b c m ms by simp
  qed
  have 3: "mset (queue (push p t q)) = mset (queue q) + {#(p, pushed q, t)#}"
    "pushed (push p t q) = Suc (pushed q)"
    by (simp_all add: push_def heappush_mset)
  from 1 2 3 bound show ?thesis by blast
qed

theorem pop_lowest_priority_then_fifo_witness:
  "run_queue [Push 5 ''a'', Push 1 ''b'', Push 3 ''c''] empty_queue = Some queue_513 \<and>
   queue queue_513 \<noteq> [] \<and>
   map_option fst (pop queue_513) = Some (1, 1, ''b'') \<and>
   run_queue [Push 5 ''a'', Push 1 ''b'', Push 3 ''c'', Pop] empty_queue =
     Some \<lparr>queue = [(3, 2, ''c''), (5, 0, ''a'')], pushed = 3\<rparr> \<and>
   map_option fst (pop \<lparr>queue = [(3, 2, ''c''), (5, 0, ''a'')], pushed = 3\<rparr>) = Some (3, 2, ''c'') \<and>
   map_option fst (pop \<lparr>queue = [(5, 0, ''a'')], pushed = 3\<rparr>) = Some (5, 0, ''a'') \<and>
   run_queue [Push 2 ''x'', Push 2 ''y'', Push 2 ''z'', Push 2 ''u'', Pop] empty_queue = Some queue_ties \<and>
   queue queue_ties \<noteq> [] \<and>
   map_option fst (pop queue_ties) = Some (2, 1, ''y'')"
proof -
  note ev = push_def pop_def empty_queue_def heappush_def heappop_def siftup_def siftup_loop.simps
    siftdown.simps entry_key_def Let_def parent_of_def numeral_3_eq_3
  have r1: "run_queue [Push 5 ''a'', Push 1 ''b'', Push 3 ''c''] empty_queue = Some queue_513"
    by (simp add: ev queue_513_def)
  have r2: "run_queue [Push 2 ''x'', Push 2 ''y'', Push 2 ''z'', Push 2 ''u'', Pop] empty_queue = Some queue_ties"
    by (simp add: ev queue_ties_def eval_nat_numeral)
  have q1: "queue queue_513 = [(1, 1, ''b''), (5, 0, ''a''), (3, 2, ''c'')]"
    by (simp add: queue_513_def)
  have q2: "queue queue_ties = [(2, 1, ''y''), (2, 3, ''u''), (2, 2, ''z'')]"
    by (simp add: queue_ties_def)
  have ne1: "queue queue_513 \<noteq> []" and ne2: "queue queue_ties \<noteq> []"
    by (simp_all add: q1 q2)
  from pop_lowest_priority_then_fifo [OF r1] ne1
  obtain e q' where p1: "pop queue_513 = Some (e, q')" and "e \<in> set (queue queue_513)"
    and "\<forall>x \<in> set (queue queue_513). fst e < fst x \<or> (fst e = fst x \<and> fst (snd e) \<le> fst (snd x))"
    by blast
  then have "e = (1, 1, ''b'')"
    by (auto simp add: q1)
  with p1 have a: "map_option fst (pop queue_513) = Some (1, 1, ''b'')" by simp
  from pop_lowest_priority_then_fifo [OF r2] ne2
  obtain e2 q2' where p2: "pop queue_ties = Some (e2, q2')" and "e2 \<in> set (queue queue_ties)"
    and "\<forall>x \<in> set (queue queue_ties). fst e2 < fst x \<or> (fst e2 = fst x \<and> fst (snd e2) \<le> fst (snd x))"
    by blast
  then have "e2 = (2, 1, ''y'')"
    by (auto simp add: q2)
  with p2 have b: "map_option fst (pop queue_ties) = Some (2, 1, ''y'')" by simp
  have c: "run_queue [Push 5 ''a'', Push 1 ''b'', Push 3 ''c'', Pop] empty_queue =
     Some \<lparr>queue = [(3, 2, ''c''), (5, 0, ''a'')], pushed = 3\<rparr>"
    "map_option fst (pop \<lparr>queue = [(3, 2, ''c''), (5, 0, ''a'')], pushed = 3\<rparr>) = Some (3, 2, ''c'')"
    "map_option fst (pop \<lparr>queue = [(5, 0, ''a'')], pushed = 3\<rparr>) = Some (5, 0, ''a'')"
    by (simp_all add: ev)
  show ?thesis
    using r1 r2 a b c by (simp add: q1 q2)
qed

end
